theory Spec2Isabelle
  imports Main
begin

section \<open>Characters and the regular-expression primitives\<close>

text \<open>
  The scanner of \<^verbatim>\<open>app/app.py\<close> works on Python strings with the \<^verbatim>\<open>re\<close> module.
  A text is modelled as a \<^typ>\<open>string\<close>: a list of 8-bit characters, read as the code points
  0 to 255. Offsets are list indices, as Python's offsets are code-point indices.
\<close>

definition is_word :: "char \<Rightarrow> bool" where
  \<comment> \<open>\<^verbatim>\<open>\w\<close> of a str pattern: alphanumeric or underscore, on the code points below 256.\<close>
  "is_word c =
     (let n = (of_char c :: nat) in
        (48 \<le> n \<and> n \<le> 57) \<or> (65 \<le> n \<and> n \<le> 90) \<or> n = 95 \<or> (97 \<le> n \<and> n \<le> 122) \<or>
        n = 170 \<or> n = 178 \<or> n = 179 \<or> n = 181 \<or> n = 185 \<or> n = 186 \<or>
        (188 \<le> n \<and> n \<le> 190) \<or> (192 \<le> n \<and> n \<le> 214) \<or> (216 \<le> n \<and> n \<le> 246) \<or> 248 \<le> n)"

definition is_space :: "char \<Rightarrow> bool" where
  \<comment> \<open>\<^verbatim>\<open>\s\<close> of a str pattern, on the code points below 256.\<close>
  "is_space c =
     (let n = (of_char c :: nat) in
        (9 \<le> n \<and> n \<le> 13) \<or> (28 \<le> n \<and> n \<le> 32) \<or> n = 133 \<or> n = 160)"

definition is_ident :: "char \<Rightarrow> bool" where
  \<comment> \<open>The class \<^verbatim>\<open>[A-Z0-9_]\<close> under \<^verbatim>\<open>re.IGNORECASE\<close>.\<close>
  "is_ident c =
     (let n = (of_char c :: nat) in
        (48 \<le> n \<and> n \<le> 57) \<or> (65 \<le> n \<and> n \<le> 90) \<or> n = 95 \<or> (97 \<le> n \<and> n \<le> 122))"

definition ascii_upper :: "char \<Rightarrow> char" where
  "ascii_upper c =
     (let n = (of_char c :: nat) in if 97 \<le> n \<and> n \<le> 122 then char_of (n - 32) else c)"

definition upper_char :: "char \<Rightarrow> string" where
  \<comment> \<open>\<^verbatim>\<open>str.upper\<close> on one code point below 256. The sharp s becomes two letters. The
      upper-case forms of the micro sign (181) and of y with diaeresis (255) lie beyond
      code point 255; the two are left as they are, which no catalog key contains either way.\<close>
  "upper_char c =
     (let n = (of_char c :: nat) in
        if 97 \<le> n \<and> n \<le> 122 then [char_of (n - 32)]
        else if n = 223 then ''SS''
        else if 224 \<le> n \<and> n \<le> 254 \<and> n \<noteq> 247 then [char_of (n - 32)]
        else [c])"

definition py_upper :: "string \<Rightarrow> string" where
  "py_upper s = concat (map upper_char s)"

definition word_at :: "string \<Rightarrow> nat \<Rightarrow> bool" where
  "word_at s i \<longleftrightarrow> i < length s \<and> is_word (s ! i)"

definition boundary :: "string \<Rightarrow> nat \<Rightarrow> bool" where
  \<comment> \<open>\<^verbatim>\<open>\b\<close> at offset \<open>i\<close>: exactly one of the two neighbours is a word character.\<close>
  "boundary s i \<longleftrightarrow> ((0 < i \<and> word_at s (i - 1)) \<noteq> word_at s i)"

definition lit_ci :: "string \<Rightarrow> string \<Rightarrow> nat \<Rightarrow> bool" where
  \<comment> \<open>The literal \<open>kw\<close> (ASCII) matches at offset \<open>i\<close>, ignoring case.\<close>
  "lit_ci kw s i \<longleftrightarrow> map ascii_upper (take (length kw) (drop i s)) = map ascii_upper kw"

definition run_end :: "(char \<Rightarrow> bool) \<Rightarrow> string \<Rightarrow> nat \<Rightarrow> nat" where
  \<comment> \<open>Where a greedy run of characters satisfying \<open>P\<close> that starts at \<open>i\<close> ends.\<close>
  "run_end P s i = i + length (takeWhile P (drop i s))"

definition slice :: "string \<Rightarrow> nat \<Rightarrow> nat \<Rightarrow> string" where
  \<comment> \<open>\<^verbatim>\<open>s[a:b]\<close> for \<open>a \<le> b\<close>.\<close>
  "slice s a b = take (b - a) (drop a s)"

text \<open>A match object, as far as the scanners read it: the span of the whole match and the
  span of the one named group they ask for.\<close>

record rmatch =
  m_start :: nat
  m_end :: nat
  g_start :: nat
  g_end :: nat

definition group0 :: "string \<Rightarrow> rmatch \<Rightarrow> string" where
  "group0 s m = slice s (m_start m) (m_end m)"

definition group_named :: "string \<Rightarrow> rmatch \<Rightarrow> string" where
  \<comment> \<open>The one named group the scanners read: \<^verbatim>\<open>table\<close> or \<^verbatim>\<open>field\<close>.\<close>
  "group_named s m = slice s (g_start m) (g_end m)"

definition group_rest :: "string \<Rightarrow> rmatch \<Rightarrow> string" where
  \<comment> \<open>The group \<^verbatim>\<open>rest\<close> of a SELECT block: from the table's end to the block's end.\<close>
  "group_rest s m = slice s (g_end m) (m_end m)"

function finditer :: "(string \<Rightarrow> nat \<Rightarrow> rmatch option) \<Rightarrow> string \<Rightarrow> nat \<Rightarrow> rmatch list" where
  \<comment> \<open>\<^verbatim>\<open>rx.finditer(s)\<close> from offset \<open>pos\<close>: the matches from left to right, one attempt per
      offset up to the end of the text, the next search starting where the last match ended.
      After an empty match the search moves on by one character; none of the three patterns
      matches the empty text, so that branch is never taken (lemmas \<open>JOIN_RE_proper\<close>,
      \<open>DECLARATION_RE_proper\<close>, \<open>SQL_SELECT_BLOCK_RE_proper\<close>).\<close>
  "finditer rx s pos =
     (if length s < pos then []
      else (case rx s pos of
              None \<Rightarrow> finditer rx s (Suc pos)
            | Some m \<Rightarrow> m # finditer rx s (if pos < m_end m then m_end m else Suc pos)))"
  by pat_completeness auto
termination
  by (relation "measure (\<lambda>(rx, s, pos). Suc (length s) - pos)") auto

declare finditer.simps [simp del]

subsection \<open>The three patterns\<close>

definition select_kw :: "string \<Rightarrow> nat \<Rightarrow> bool" where
  \<comment> \<open>\<^verbatim>\<open>\bSELECT\b\<close>\<close>
  "select_kw s i \<longleftrightarrow> boundary s i \<and> lit_ci ''SELECT'' s i \<and> boundary s (i + 6)"

definition at_end :: "string \<Rightarrow> nat \<Rightarrow> bool" where
  \<comment> \<open>\<^verbatim>\<open>$\<close> without \<^verbatim>\<open>re.MULTILINE\<close>: the end of the text, or just before a final newline.\<close>
  "at_end s p \<longleftrightarrow> p = length s \<or> (Suc p = length s \<and> s ! p = CHR 0x0A)"

definition lookahead :: "string \<Rightarrow> nat \<Rightarrow> bool" where
  \<comment> \<open>\<^verbatim>\<open>(?=(\bSELECT\b|$))\<close>\<close>
  "lookahead s p \<longleftrightarrow> select_kw s p \<or> at_end s p"

definition from_clause :: "string \<Rightarrow> nat \<Rightarrow> (nat \<times> nat) option" where
  \<comment> \<open>\<^verbatim>\<open>\bFROM\b\s+(?P<table>\w+)\<close> at offset \<open>j\<close>: the span of the table. Both runs are
      greedy, and giving back part of one never lets the rest match where the whole does not.\<close>
  "from_clause s j =
     (if boundary s j \<and> lit_ci ''FROM'' s j \<and> boundary s (j + 4) then
        (let ts = run_end is_space s (j + 4); te = run_end is_word s ts in
           if j + 4 < ts \<and> ts < te then Some (ts, te) else None)
      else None)"

definition SQL_SELECT_BLOCK_RE :: "string \<Rightarrow> nat \<Rightarrow> rmatch option" where
  \<comment> \<open>One match attempt at offset \<open>i\<close>. The lazy \<^verbatim>\<open>.+?\<close> (at least one character, any
      character under \<^verbatim>\<open>re.DOTALL\<close>) stops at the first offset where the FROM clause matches;
      the lazy \<^verbatim>\<open>.*?\<close> stops at the first offset where the lookahead holds.\<close>
  "SQL_SELECT_BLOCK_RE s i =
     (if select_kw s i then
        (case List.find (\<lambda>j. from_clause s j \<noteq> None) [i + 7 ..< length s] of
           None \<Rightarrow> None
         | Some j \<Rightarrow>
             (case from_clause s j of
                None \<Rightarrow> None
              | Some (ts, te) \<Rightarrow>
                  (case List.find (lookahead s) [te ..< Suc (length s)] of
                     None \<Rightarrow> None
                   | Some p \<Rightarrow> Some \<lparr>m_start = i, m_end = p, g_start = ts, g_end = te\<rparr>)))
      else None)"

definition JOIN_RE :: "string \<Rightarrow> nat \<Rightarrow> rmatch option" where
  \<comment> \<open>\<^verbatim>\<open>\bJOIN\s+(?P<table>\w+)\<close>, ignoring case\<close>
  "JOIN_RE s i =
     (if boundary s i \<and> lit_ci ''JOIN'' s i then
        (let ts = run_end is_space s (i + 4); te = run_end is_word s ts in
           if i + 4 < ts \<and> ts < te then Some \<lparr>m_start = i, m_end = te, g_start = ts, g_end = te\<rparr>
           else None)
      else None)"

definition DECLARATION_RE :: "string \<Rightarrow> nat \<Rightarrow> rmatch option" where
  \<comment> \<open>\<^verbatim>\<open>\b(?:TYPE|LIKE)\b\s+(?P<field>[A-Z0-9_]+)\<close>, ignoring case\<close>
  "DECLARATION_RE s i =
     (if boundary s i \<and> (lit_ci ''TYPE'' s i \<or> lit_ci ''LIKE'' s i) \<and> boundary s (i + 4) then
        (let fs = run_end is_space s (i + 4); fe = run_end is_ident s fs in
           if i + 4 < fs \<and> fs < fe then Some \<lparr>m_start = i, m_end = fe, g_start = fs, g_end = fe\<rparr>
           else None)
      else None)"

definition search_vbtyp_ext :: "string \<Rightarrow> bool" where
  \<comment> \<open>\<^verbatim>\<open>re.search(r"\bVBTYP_EXT\b", text, re.IGNORECASE)\<close> finds a match\<close>
  "search_vbtyp_ext t \<longleftrightarrow>
     list_ex (\<lambda>i. boundary t i \<and> lit_ci ''VBTYP_EXT'' t i \<and> boundary t (i + 9)) [0 ..< Suc (length t)]"

section \<open>The pattern catalog\<close>

definition SQL_TABLES :: "string \<rightharpoonup> string" where
  "SQL_TABLES = map_of [(''VBUK'', ''VBAK''), (''VBUP'', ''VBAP'')]"

definition SQL_FIELDS :: "string set" where
  "SQL_FIELDS = {''VBTYP_EXT''}"

definition DECL_FIELDS :: "string \<rightharpoonup> string" where
  "DECL_FIELDS = map_of [(''VBTYP'', ''VBTYPL'')]"

definition DECL_FIELDS_OBS :: "string set" where
  "DECL_FIELDS_OBS = {''VBTYP_EXT''}"

section \<open>Raw hits, findings and units\<close>

datatype target_kind = TABLE | SQL_FIELD | DECLARATION

datatype error = KeyError string

text \<open>The dictionary a scanner appends for one match. Its keys carry the prefix \<open>h_\<close> to
  tell them from the keys of a finding, which are the same words in the source.\<close>

record raw_hit =
  h_target_type :: target_kind
  h_target_name :: string
  h_field :: "string option"
  h_span :: "nat \<times> nat"
  h_used_fields :: "string list"
  h_suggested_fields :: "string list option"
  h_suggested_statement :: string

record finding =
  table :: "string option"
  field :: "string option"
  target_type :: target_kind
  target_name :: string
  start_char_in_unit :: nat
  end_char_in_unit :: nat
  used_fields :: "string list"
  ambiguous :: bool
  suggested_fields :: "string list option"
  suggested_statement :: string

record Unit =
  pgm_name :: string
  inc_name :: string
  type :: string
  name :: "string option"
  code :: "string option"

text \<open>An output object: the unit's own fields and, under \<^verbatim>\<open>selects\<close>, its findings.\<close>

record Result = Unit +
  selects :: "finding list"

section \<open>Comment helpers\<close>

definition comment_table :: "string \<Rightarrow> error + string" where
  \<comment> \<open>The subscript \<^verbatim>\<open>SQL_TABLES[tbl]\<close> raises KeyError on a name that is no key.\<close>
  "comment_table tbl =
     (case SQL_TABLES tbl of
        None \<Rightarrow> Inl (KeyError tbl)
      | Some repl \<Rightarrow>
          Inr (''* TODO: Table '' @ py_upper tbl @
               '' obsolete in S/4HANA (Note 2198647). Replace with '' @ repl @ ''.''))"

definition comment_decl_field :: "string \<Rightarrow> string" where
  "comment_decl_field fld =
     (let f = py_upper fld in
        if f \<in> DECL_FIELDS_OBS then
          ''* TODO: Field '' @ f @ '' obsolete (Note 2198647). Remove usage.''
        else
          (case DECL_FIELDS f of
             Some repl \<Rightarrow>
               ''* TODO: Data element '' @ f @ '' was lengthened (Note 2198647). Use '' @ repl @ ''.''
           | None \<Rightarrow> []))"

definition comment_sql_field :: "string \<Rightarrow> string" where
  "comment_sql_field f = ''* TODO: Field '' @ f @ '' obsolete (Note 2198647). Remove usage.''"

section \<open>The SQL scanner\<close>

definition table_hit :: "string \<Rightarrow> nat \<times> nat \<Rightarrow> error + raw_hit" where
  \<comment> \<open>The dictionary appended for an obsolete table: both \<^verbatim>\<open>SQL_TABLES[table]\<close> and
      \<^verbatim>\<open>comment_table(table)\<close> can raise.\<close>
  "table_hit tbl sp =
     (case SQL_TABLES tbl of
        None \<Rightarrow> Inl (KeyError tbl)
      | Some repl \<Rightarrow>
          (case comment_table tbl of
             Inl e \<Rightarrow> Inl e
           | Inr stmt \<Rightarrow>
               Inr \<lparr>h_target_type = TABLE, h_target_name = tbl, h_field = None, h_span = sp,
                    h_used_fields = [tbl], h_suggested_fields = Some [repl],
                    h_suggested_statement = stmt\<rparr>))"

definition sql_field_hit :: "nat \<times> nat \<Rightarrow> raw_hit" where
  "sql_field_hit sp =
     \<lparr>h_target_type = SQL_FIELD, h_target_name = ''VBTYP_EXT'', h_field = Some ''VBTYP_EXT'',
      h_span = sp, h_used_fields = [''VBTYP_EXT''], h_suggested_fields = None,
      h_suggested_statement = comment_sql_field ''VBTYP_EXT''\<rparr>"

fun join_loop :: "rmatch list \<Rightarrow> string \<Rightarrow> raw_hit list \<Rightarrow> error + raw_hit list" where
  \<comment> \<open>\<^verbatim>\<open>for jm in JOIN_RE.finditer(rest_text)\<close>; the span is \<^verbatim>\<open>jm.span()\<close>, offsets into
      \<^verbatim>\<open>rest_text\<close>.\<close>
  "join_loop [] rest_text results = Inr results"
| "join_loop (jm # jms) rest_text results =
     (let jtable = py_upper (group_named rest_text jm) in
        if SQL_TABLES jtable \<noteq> None then
          (case table_hit jtable (m_start jm, m_end jm) of
             Inl e \<Rightarrow> Inl e
           | Inr h \<Rightarrow> join_loop jms rest_text (results @ [h]))
        else join_loop jms rest_text results)"

fun sql_loop :: "rmatch list \<Rightarrow> string \<Rightarrow> raw_hit list \<Rightarrow> error + raw_hit list" where
  \<comment> \<open>\<^verbatim>\<open>for stmt in SQL_SELECT_BLOCK_RE.finditer(code)\<close>\<close>
  "sql_loop [] src results = Inr results"
| "sql_loop (stmt # stmts) src results =
     (let tbl = py_upper (group_named src stmt);
          rest_text = group_rest src stmt;
          sp = (m_start stmt, m_end stmt)
      in case (if SQL_TABLES tbl \<noteq> None then
                 (case table_hit tbl sp of Inl e \<Rightarrow> Inl e | Inr h \<Rightarrow> Inr (results @ [h]))
               else Inr results) of
           Inl e \<Rightarrow> Inl e
         | Inr results1 \<Rightarrow>
             (case join_loop (finditer JOIN_RE rest_text 0) rest_text results1 of
                Inl e \<Rightarrow> Inl e
              | Inr results2 \<Rightarrow>
                  sql_loop stmts src
                    (if search_vbtyp_ext (group0 src stmt) then results2 @ [sql_field_hit sp]
                     else results2)))"

definition scan_sql :: "string \<Rightarrow> error + raw_hit list" where
  "scan_sql src = sql_loop (finditer SQL_SELECT_BLOCK_RE src 0) src []"

section \<open>The declaration scanner\<close>

definition decl_hit :: "string \<Rightarrow> nat \<times> nat \<Rightarrow> raw_hit" where
  "decl_hit fld sp =
     \<lparr>h_target_type = DECLARATION, h_target_name = fld, h_field = Some fld, h_span = sp,
      h_used_fields = [fld],
      h_suggested_fields = (case DECL_FIELDS fld of Some repl \<Rightarrow> Some [repl] | None \<Rightarrow> None),
      h_suggested_statement = comment_decl_field fld\<rparr>"

fun decl_loop :: "rmatch list \<Rightarrow> string \<Rightarrow> raw_hit list \<Rightarrow> raw_hit list" where
  \<comment> \<open>\<^verbatim>\<open>for m in DECLARATION_RE.finditer(code)\<close>\<close>
  "decl_loop [] src results = results"
| "decl_loop (m # ms) src results =
     (let fld = py_upper (group_named src m) in
        if DECL_FIELDS fld \<noteq> None \<or> fld \<in> DECL_FIELDS_OBS then
          decl_loop ms src (results @ [decl_hit fld (m_start m, m_end m)])
        else decl_loop ms src results)"

definition scan_declarations :: "string \<Rightarrow> raw_hit list" where
  "scan_declarations src = decl_loop (finditer DECLARATION_RE src 0) src []"

section \<open>The aggregator\<close>

type_synonym hit_key = "target_kind \<times> string \<times> (nat \<times> nat)"

definition key_of :: "raw_hit \<Rightarrow> hit_key" where
  "key_of hit = (h_target_type hit, h_target_name hit, h_span hit)"

definition to_finding :: "raw_hit \<Rightarrow> finding" where
  "to_finding hit =
     \<lparr>table = (if h_target_type hit = TABLE then Some (h_target_name hit) else None),
      field = h_field hit,
      target_type = h_target_type hit,
      target_name = h_target_name hit,
      start_char_in_unit = fst (h_span hit),
      end_char_in_unit = snd (h_span hit),
      used_fields = h_used_fields hit,
      ambiguous = False,
      suggested_fields = h_suggested_fields hit,
      suggested_statement = h_suggested_statement hit\<rparr>"

fun hit_loop :: "raw_hit list \<Rightarrow> hit_key set \<Rightarrow> finding list \<Rightarrow> finding list" where
  \<comment> \<open>The inner loop of \<^verbatim>\<open>assess\<close>, with its two variables \<^verbatim>\<open>seen\<close> and \<^verbatim>\<open>findings\<close>.\<close>
  "hit_loop [] seen findings = findings"
| "hit_loop (hit # hits) seen findings =
     (let key = key_of hit in
        if key \<in> seen then hit_loop hits seen findings
        else hit_loop hits (insert key seen) (findings @ [to_finding hit]))"

definition unit_findings :: "string \<Rightarrow> error + finding list" where
  \<comment> \<open>The body of the outer loop up to the finished \<^verbatim>\<open>findings\<close>: both variables start empty
      for every unit.\<close>
  "unit_findings src =
     (case scan_sql src of
        Inl e \<Rightarrow> Inl e
      | Inr sql_hits \<Rightarrow> Inr (hit_loop (sql_hits @ scan_declarations src) {} []))"

definition unit_src :: "Unit \<Rightarrow> string" where
  \<comment> \<open>\<^verbatim>\<open>src = u.code or ""\<close>\<close>
  "unit_src u = (case code u of None \<Rightarrow> [] | Some c \<Rightarrow> if c = [] then [] else c)"

fun assess_loop :: "Unit list \<Rightarrow> Result list \<Rightarrow> error + Result list" where
  \<comment> \<open>The outer loop of \<^verbatim>\<open>assess\<close>; the output object is the unit's JSON dump with the key
      \<^verbatim>\<open>selects\<close> added.\<close>
  "assess_loop [] results = Inr results"
| "assess_loop (u # units) results =
     (let src = unit_src u in
        case unit_findings src of
          Inl e \<Rightarrow> Inl e
        | Inr findings \<Rightarrow>
            assess_loop units
              (results @ [\<lparr>pgm_name = pgm_name u, inc_name = inc_name u, type = type u,
                            name = name u, code = code u, selects = findings\<rparr>]))"

definition assess :: "Unit list \<Rightarrow> error + Result list" where
  "assess units = assess_loop units []"

section \<open>Notions used in the statements\<close>

text \<open>
  The loops of the two scanners append, for each match, a list of hits that depends on that
  match alone. The functions below name these lists, the order of a list of matches, the
  shape of a hit, the first occurrences of a key in a list of hits, the occurrence of a
  token in a text, and a keyword, a FROM clause and the stop of a block at an offset of a
  text. None of them is part of the program; the lemmas relate them to it.
\<close>

definition table_hits :: "string \<Rightarrow> nat \<times> nat \<Rightarrow> raw_hit list" where
  "table_hits tbl sp =
     (case SQL_TABLES tbl of
        None \<Rightarrow> []
      | Some repl \<Rightarrow>
          [\<lparr>h_target_type = TABLE, h_target_name = tbl, h_field = None, h_span = sp,
            h_used_fields = [tbl], h_suggested_fields = Some [repl],
            h_suggested_statement =
              ''* TODO: Table '' @ py_upper tbl @
              '' obsolete in S/4HANA (Note 2198647). Replace with '' @ repl @ ''.''\<rparr>])"

definition join_hits :: "string \<Rightarrow> raw_hit list" where
  "join_hits rest_text =
     concat (map (\<lambda>jm. table_hits (py_upper (group_named rest_text jm)) (m_start jm, m_end jm))
                 (finditer JOIN_RE rest_text 0))"

definition field_hits :: "string \<Rightarrow> rmatch \<Rightarrow> raw_hit list" where
  "field_hits src stmt =
     (if search_vbtyp_ext (group0 src stmt) then [sql_field_hit (m_start stmt, m_end stmt)] else [])"

definition block_hits :: "string \<Rightarrow> rmatch \<Rightarrow> raw_hit list" where
  "block_hits src stmt =
     table_hits (py_upper (group_named src stmt)) (m_start stmt, m_end stmt) @
     join_hits (group_rest src stmt) @ field_hits src stmt"

definition decl_hits :: "string \<Rightarrow> rmatch \<Rightarrow> raw_hit list" where
  "decl_hits src m =
     (let fld = py_upper (group_named src m) in
        if DECL_FIELDS fld \<noteq> None \<or> fld \<in> DECL_FIELDS_OBS then [decl_hit fld (m_start m, m_end m)]
        else [])"

definition sql_hits :: "string \<Rightarrow> raw_hit list" where
  "sql_hits src = concat (map (block_hits src) (finditer SQL_SELECT_BLOCK_RE src 0))"

definition first_occurrences :: "(raw_hit \<Rightarrow> 'k) \<Rightarrow> raw_hit list \<Rightarrow> raw_hit list" where
  \<comment> \<open>A hit stays when no hit before it in the list has the same key, for the given key.\<close>
  "first_occurrences key hits =
     map (\<lambda>i. hits ! i)
       (filter (\<lambda>i. \<forall>j<i. key (hits ! j) \<noteq> key (hits ! i)) [0 ..< length hits])"

definition result_of :: "Unit \<Rightarrow> finding list \<Rightarrow> Result" where
  "result_of u findings =
     \<lparr>pgm_name = pgm_name u, inc_name = inc_name u, type = type u, name = name u, code = code u,
      selects = findings\<rparr>"

definition ascending :: "rmatch list \<Rightarrow> bool" where
  \<comment> \<open>No match is empty, and each ends at or before the start of the next.\<close>
  "ascending ms \<longleftrightarrow>
     sorted_wrt (\<lambda>a b. m_end a \<le> m_start b) ms \<and> (\<forall>m \<in> set ms. m_start m < m_end m)"

definition proper :: "(string \<Rightarrow> nat \<Rightarrow> rmatch option) \<Rightarrow> string \<Rightarrow> bool" where
  \<comment> \<open>A match found at offset \<open>i\<close> starts at \<open>i\<close> and is not empty.\<close>
  "proper rx s \<longleftrightarrow> (\<forall>i m. rx s i = Some m \<longrightarrow> m_start m = i \<and> i < m_end m)"

definition wf_hit :: "raw_hit \<Rightarrow> bool" where
  \<comment> \<open>A hit is one of the three dictionaries the scanners build, for its own name and span.\<close>
  "wf_hit h \<longleftrightarrow>
     (case h_target_type h of
        TABLE \<Rightarrow> table_hits (h_target_name h) (h_span h) = [h]
      | SQL_FIELD \<Rightarrow> h = sql_field_hit (h_span h)
      | DECLARATION \<Rightarrow>
          (h_target_name h = ''VBTYP'' \<or> h_target_name h = ''VBTYP_EXT'') \<and>
          h = decl_hit (h_target_name h) (h_span h))"

definition token_occurs :: "string \<Rightarrow> string \<Rightarrow> bool" where
  \<comment> \<open>The upper-case token \<open>tok\<close> occurs in \<open>t\<close>, in any mix of cases, with no word
      character right before it and none right after it.\<close>
  "token_occurs tok t \<longleftrightarrow>
     (\<exists>pre mid post. t = pre @ mid @ post \<and> map ascii_upper mid = tok \<and>
        (pre = [] \<or> \<not> is_word (last pre)) \<and> (post = [] \<or> \<not> is_word (hd post)))"


definition keyword_at :: "string \<Rightarrow> string \<Rightarrow> nat \<Rightarrow> bool" where
  \<comment> \<open>The upper-case keyword \<open>kw\<close> stands at offset \<open>i\<close> of \<open>s\<close>, in any mix of cases, with
      no word character right before it and none right after it.\<close>
  "keyword_at kw s i \<longleftrightarrow>
     (\<exists>pre mid post. s = pre @ mid @ post \<and> length pre = i \<and> map ascii_upper mid = kw \<and>
        (pre = [] \<or> \<not> is_word (last pre)) \<and> (post = [] \<or> \<not> is_word (hd post)))"

definition from_at :: "string \<Rightarrow> nat \<Rightarrow> nat \<Rightarrow> nat \<Rightarrow> bool" where
  \<comment> \<open>A FROM clause at offset \<open>j\<close> with its table at \<open>[ts, te)\<close>: the keyword FROM, then
      white space up to \<open>ts\<close> (at least one character), then word characters up to \<open>te\<close>
      (at least one), and no word character at \<open>te\<close>.\<close>
  "from_at s j ts te \<longleftrightarrow>
     keyword_at ''FROM'' s j \<and> j + 4 < ts \<and> ts < te \<and> te \<le> length s \<and>
     (\<forall>q. j + 4 \<le> q \<and> q < ts \<longrightarrow> is_space (s ! q)) \<and>
     (\<forall>q. ts \<le> q \<and> q < te \<longrightarrow> is_word (s ! q)) \<and>
     (te < length s \<longrightarrow> \<not> is_word (s ! te))"

definition block_stop :: "string \<Rightarrow> nat \<Rightarrow> bool" where
  \<comment> \<open>Where a block may end: before a SELECT keyword, at the end of the text, or before a
      newline that is the last character of the text.\<close>
  "block_stop s p \<longleftrightarrow>
     keyword_at ''SELECT'' s p \<or> p = length s \<or> (Suc p = length s \<and> s ! p = CHR 0x0A)"

section \<open>The scanners as lists of hits per match\<close>

lemma SQL_TABLES_Some: "SQL_TABLES t = Some r \<longleftrightarrow> (t = ''VBUK'' \<and> r = ''VBAK'') \<or> (t = ''VBUP'' \<and> r = ''VBAP'')"
  by (auto simp: SQL_TABLES_def)

lemma dom_SQL_TABLES: "dom SQL_TABLES = {''VBUK'', ''VBUP''}"
  by (auto simp: SQL_TABLES_def split: if_splits)

lemma DECL_FIELDS_Some: "DECL_FIELDS t = Some r \<longleftrightarrow> t = ''VBTYP'' \<and> r = ''VBTYPL''"
  by (auto simp: DECL_FIELDS_def)

lemma table_hit_hits:
  "SQL_TABLES tbl \<noteq> None \<Longrightarrow> \<exists>h. table_hit tbl sp = Inr h \<and> table_hits tbl sp = [h]"
  by (auto simp: table_hit_def table_hits_def comment_table_def)

lemma table_hits_None: "SQL_TABLES tbl = None \<Longrightarrow> table_hits tbl sp = []"
  by (simp add: table_hits_def)

lemma join_loop_eq:
  "join_loop jms rest_text results =
     Inr (results @ concat (map (\<lambda>jm. table_hits (py_upper (group_named rest_text jm))
                                          (m_start jm, m_end jm)) jms))"
proof (induction jms arbitrary: results)
  case Nil
  show ?case by simp
next
  case (Cons jm jms)
  show ?case
  proof (cases "SQL_TABLES (py_upper (group_named rest_text jm)) = None")
    case True
    then show ?thesis by (simp add: Cons.IH table_hits_None)
  next
    case False
    from table_hit_hits [OF False, of "(m_start jm, m_end jm)"] obtain h where
      "table_hit (py_upper (group_named rest_text jm)) (m_start jm, m_end jm) = Inr h"
      "table_hits (py_upper (group_named rest_text jm)) (m_start jm, m_end jm) = [h]"
      by blast
    with False show ?thesis by (simp add: Cons.IH)
  qed
qed

lemma sql_loop_eq:
  "sql_loop stmts src results = Inr (results @ concat (map (block_hits src) stmts))"
proof (induction stmts arbitrary: results)
  case Nil
  show ?case by simp
next
  case (Cons stmt stmts)
  let ?tbl = "py_upper (group_named src stmt)"
  let ?sp = "(m_start stmt, m_end stmt)"
  have main: "(if SQL_TABLES ?tbl \<noteq> None then
                 (case table_hit ?tbl ?sp of Inl e \<Rightarrow> Inl e | Inr h \<Rightarrow> Inr (results @ [h]))
               else Inr results) = Inr (results @ table_hits ?tbl ?sp)"
  proof (cases "SQL_TABLES ?tbl = None")
    case True
    then show ?thesis by (simp add: table_hits_None)
  next
    case False
    from table_hit_hits [OF False, of ?sp] obtain h where
      "table_hit ?tbl ?sp = Inr h" "table_hits ?tbl ?sp = [h]" by blast
    with False show ?thesis by simp
  qed
  have bh: "block_hits src stmt =
      table_hits ?tbl ?sp @
      concat (map (\<lambda>jm. table_hits (py_upper (group_named (group_rest src stmt) jm))
                     (m_start jm, m_end jm)) (finditer JOIN_RE (group_rest src stmt) 0)) @
      (if search_vbtyp_ext (group0 src stmt) then [sql_field_hit ?sp] else [])"
    by (simp add: block_hits_def join_hits_def field_hits_def)
  show ?case
    by (simp only: sql_loop.simps Let_def main join_loop_eq sum.case Cons.IH)
       (simp add: bh)
qed

lemma scan_sql_eq:
  "scan_sql src = Inr (concat (map (block_hits src) (finditer SQL_SELECT_BLOCK_RE src 0)))"
  by (simp add: scan_sql_def sql_loop_eq)

lemma decl_loop_eq: "decl_loop ms src results = results @ concat (map (decl_hits src) ms)"
  by (induction ms arbitrary: results) (simp_all add: decl_hits_def Let_def)

lemma scan_declarations_eq:
  "scan_declarations src = concat (map (decl_hits src) (finditer DECLARATION_RE src 0))"
  by (simp add: scan_declarations_def decl_loop_eq)

section \<open>The aggregator as a list function\<close>

lemma first_occurrences_snoc:
  "first_occurrences key (xs @ [x]) =
     first_occurrences key xs @ (if key x \<in> key ` set xs then [] else [x])"
proof -
  have old: "filter (\<lambda>i. \<forall>j<i. key ((xs @ [x]) ! j) \<noteq> key ((xs @ [x]) ! i)) [0 ..< length xs]
      = filter (\<lambda>i. \<forall>j<i. key (xs ! j) \<noteq> key (xs ! i)) [0 ..< length xs]"
    by (rule filter_cong) (auto simp: nth_append)
  have new: "(\<forall>j<length xs. key ((xs @ [x]) ! j) \<noteq> key x) \<longleftrightarrow> key x \<notin> key ` set xs"
  proof
    assume a: "\<forall>j<length xs. key ((xs @ [x]) ! j) \<noteq> key x"
    show "key x \<notin> key ` set xs"
    proof
      assume "key x \<in> key ` set xs"
      then obtain y where "y \<in> set xs" "key y = key x" by auto
      then obtain j where "j < length xs" "xs ! j = y" by (auto simp: in_set_conv_nth)
      with a \<open>key y = key x\<close> show False by (auto simp: nth_append)
    qed
  next
    assume a: "key x \<notin> key ` set xs"
    show "\<forall>j<length xs. key ((xs @ [x]) ! j) \<noteq> key x"
    proof (intro allI impI)
      fix j assume "j < length xs"
      then have "xs ! j \<in> set xs" by simp
      then have "key (xs ! j) \<in> key ` set xs" by (rule imageI)
      with a have "key (xs ! j) \<noteq> key x" by metis
      with \<open>j < length xs\<close> show "key ((xs @ [x]) ! j) \<noteq> key x"
        by (simp add: nth_append)
    qed
  qed
  have m: "map (\<lambda>i. (xs @ [x]) ! i) (filter (\<lambda>i. \<forall>j<i. key (xs ! j) \<noteq> key (xs ! i)) [0 ..< length xs])
      = map (\<lambda>i. xs ! i) (filter (\<lambda>i. \<forall>j<i. key (xs ! j) \<noteq> key (xs ! i)) [0 ..< length xs])"
    by (rule map_cong) (auto simp: nth_append)
  show ?thesis
    using new by (simp add: first_occurrences_def old m)
qed

lemma hit_loop_snoc:
  "hit_loop (xs @ [x]) seen findings =
     hit_loop xs seen findings @
       (if key_of x \<in> seen \<union> key_of ` set xs then [] else [to_finding x])"
  by (induction xs arbitrary: seen findings) (auto simp: Let_def)

lemma hit_loop_acc: "hit_loop xs seen findings = findings @ hit_loop xs seen []"
proof (induction xs arbitrary: seen findings)
  case Nil
  show ?case by simp
next
  case (Cons x xs)
  show ?case
    using Cons.IH [of seen findings] Cons.IH [of "insert (key_of x) seen" "findings @ [to_finding x]"]
      Cons.IH [of "insert (key_of x) seen" "[to_finding x]"]
    by (simp add: Let_def)
qed

lemma hit_loop_first_occurrences:
  "hit_loop hits {} [] = map to_finding (first_occurrences key_of hits)"
proof (induction hits rule: rev_induct)
  case Nil
  show ?case by (simp add: first_occurrences_def)
next
  case (snoc x xs)
  then show ?case by (simp add: hit_loop_snoc first_occurrences_snoc)
qed

lemma unit_findings_eq:
  "unit_findings src = Inr (map to_finding (first_occurrences key_of (sql_hits src @ scan_declarations src)))"
  by (simp add: unit_findings_def scan_sql_eq sql_hits_def hit_loop_first_occurrences)

lemma assess_loop_eq:
  "assess_loop units results =
     Inr (results @ map (\<lambda>u. result_of u (map to_finding
            (first_occurrences key_of (sql_hits (unit_src u) @ scan_declarations (unit_src u))))) units)"
  by (induction units arbitrary: results) (simp_all add: unit_findings_eq result_of_def Let_def)

lemma assess_eq:
  "assess units =
     Inr (map (\<lambda>u. result_of u (map to_finding
            (first_occurrences key_of (sql_hits (unit_src u) @ scan_declarations (unit_src u))))) units)"
  by (simp add: assess_def assess_loop_eq)

section \<open>Matches in left-to-right order\<close>

lemma find_upt_Some:
  assumes "List.find P [a ..< b] = Some x"
  shows "a \<le> x \<and> x < b \<and> P x \<and> (\<forall>y. a \<le> y \<and> y < x \<longrightarrow> \<not> P y)"
proof -
  from assms obtain i where i: "i < length [a ..< b]" "P ([a ..< b] ! i)" "x = [a ..< b] ! i"
    "\<forall>j<i. \<not> P ([a ..< b] ! j)"
    by (auto simp: find_Some_iff)
  then have x: "x = a + i" "i < b - a" by auto
  have "\<not> P y" if "a \<le> y" "y < x" for y
  proof -
    from that x have "y - a < i" by arith
    with i(4) have "\<not> P ([a ..< b] ! (y - a))" by blast
    moreover from that x have "[a ..< b] ! (y - a) = y" by auto
    ultimately show ?thesis by simp
  qed
  with i x show ?thesis by auto
qed

lemma find_upt_None: "List.find P [a ..< b] = None \<longleftrightarrow> (\<forall>y. a \<le> y \<and> y < b \<longrightarrow> \<not> P y)"
  by (auto simp: find_None_iff)

lemma finditer_member:
  "proper rx s \<Longrightarrow> m \<in> set (finditer rx s pos) \<Longrightarrow>
     pos \<le> m_start m \<and> m_start m \<le> length s \<and> rx s (m_start m) = Some m"
proof (induction rx s pos rule: finditer.induct)
  case (1 rx s pos)
  show ?case
  proof (cases "length s < pos")
    case True
    with "1.prems" show ?thesis by (simp add: finditer.simps [of rx s pos])
  next
    case False
    show ?thesis
    proof (cases "rx s pos")
      case None
      with False "1.prems" have "m \<in> set (finditer rx s (Suc pos))"
        by (simp add: finditer.simps [of rx s pos])
      with "1.IH"(1) [OF False None] "1.prems"(1) show ?thesis by auto
    next
      case (Some m')
      with "1.prems"(1) have p: "m_start m' = pos" "pos < m_end m'" by (auto simp: proper_def)
      from False Some "1.prems" p have "m = m' \<or> m \<in> set (finditer rx s (m_end m'))"
        by (simp add: finditer.simps [of rx s pos])
      then show ?thesis
      proof
        assume "m = m'"
        with Some p False show ?thesis by simp
      next
        assume "m \<in> set (finditer rx s (m_end m'))"
        with "1.IH"(2) [OF False Some] "1.prems"(1) p show ?thesis by auto
      qed
    qed
  qed
qed

lemma finditer_ascending: "proper rx s \<Longrightarrow> ascending (finditer rx s pos)"
proof (induction rx s pos rule: finditer.induct)
  case (1 rx s pos)
  show ?case
  proof (cases "length s < pos")
    case True
    then show ?thesis by (simp add: finditer.simps [of rx s pos] ascending_def)
  next
    case False
    show ?thesis
    proof (cases "rx s pos")
      case None
      with False "1.IH"(1) "1.prems" show ?thesis by (simp add: finditer.simps [of rx s pos])
    next
      case (Some m')
      with "1.prems" have p: "m_start m' = pos" "pos < m_end m'" by (auto simp: proper_def)
      from False Some p have eq: "finditer rx s pos = m' # finditer rx s (m_end m')"
        by (simp add: finditer.simps [of rx s pos])
      from "1.IH"(2) [OF False Some] "1.prems" p have "ascending (finditer rx s (m_end m'))" by simp
      moreover have "\<forall>x \<in> set (finditer rx s (m_end m')). m_end m' \<le> m_start x"
        using finditer_member [OF "1.prems"] by blast
      ultimately show ?thesis using p by (simp add: eq ascending_def)
    qed
  qed
qed

lemma run_end_ge: "i \<le> run_end P s i"
  by (simp add: run_end_def)

lemma run_end_le_length: "i \<le> length s \<Longrightarrow> run_end P s i \<le> length s"
proof -
  assume "i \<le> length s"
  have "length (takeWhile P (drop i s)) \<le> length (drop i s)" by (rule length_takeWhile_le)
  with \<open>i \<le> length s\<close> show ?thesis by (simp add: run_end_def)
qed

lemma JOIN_RE_proper: "proper JOIN_RE s"
  by (auto simp: proper_def JOIN_RE_def Let_def split: if_splits)

lemma DECLARATION_RE_proper: "proper DECLARATION_RE s"
  by (auto simp: proper_def DECLARATION_RE_def Let_def split: if_splits)

lemma from_clause_Some: "from_clause s j = Some (ts, te) \<Longrightarrow> j + 4 < ts \<and> ts < te"
  by (auto simp: from_clause_def Let_def split: if_splits)

lemma SQL_SELECT_BLOCK_RE_Some:
  assumes "SQL_SELECT_BLOCK_RE s i = Some m"
  shows "m_start m = i \<and> i + 12 < m_end m \<and> m_end m \<le> length s \<and> select_kw s i \<and>
         lookahead s (m_end m) \<and> g_start m < g_end m \<and> g_end m \<le> m_end m"
proof -
  from assms have kw: "select_kw s i"
    by (auto simp: SQL_SELECT_BLOCK_RE_def split: if_splits)
  with assms obtain j ts te p where
    j: "List.find (\<lambda>j. from_clause s j \<noteq> None) [i + 7 ..< length s] = Some j" and
    f: "from_clause s j = Some (ts, te)" and
    p: "List.find (lookahead s) [te ..< Suc (length s)] = Some p" and
    m: "m = \<lparr>m_start = i, m_end = p, g_start = ts, g_end = te\<rparr>"
    by (auto simp: SQL_SELECT_BLOCK_RE_def split: option.splits)
  from find_upt_Some [OF j] have "i + 7 \<le> j" by simp
  moreover from from_clause_Some [OF f] have "j + 4 < ts" "ts < te" by simp_all
  moreover from find_upt_Some [OF p] have "te \<le> p" "p < Suc (length s)" "lookahead s p" by simp_all
  ultimately show ?thesis using kw m by simp
qed

lemma SQL_SELECT_BLOCK_RE_proper: "proper SQL_SELECT_BLOCK_RE s"
  using SQL_SELECT_BLOCK_RE_Some by (fastforce simp: proper_def)

section \<open>The shape of a hit\<close>

lemma table_hits_wf:
  assumes "h \<in> set (table_hits t sp)"
  shows "wf_hit h \<and> h_target_type h = TABLE"
proof (cases "SQL_TABLES t")
  case None
  with assms show ?thesis by (simp add: table_hits_def)
next
  case (Some r)
  with assms have "table_hits t sp = [h]" by (simp add: table_hits_def)
  moreover from this Some have "h_target_type h = TABLE \<and> h_target_name h = t \<and> h_span h = sp"
    by (auto simp: table_hits_def)
  ultimately show ?thesis by (simp add: wf_hit_def)
qed

lemma join_hits_wf: "h \<in> set (join_hits rest_text) \<Longrightarrow> wf_hit h \<and> h_target_type h = TABLE"
  by (auto simp: join_hits_def dest: table_hits_wf)

lemma field_hits_wf: "h \<in> set (field_hits src stmt) \<Longrightarrow> wf_hit h \<and> h_target_type h = SQL_FIELD"
  by (auto simp: field_hits_def wf_hit_def sql_field_hit_def split: if_splits)

lemma block_hits_wf: "h \<in> set (block_hits src stmt) \<Longrightarrow> wf_hit h"
  by (auto simp: block_hits_def dest: table_hits_wf join_hits_wf field_hits_wf)

lemma decl_hits_wf: "h \<in> set (decl_hits src m) \<Longrightarrow> wf_hit h"
  by (auto simp: decl_hits_def Let_def wf_hit_def decl_hit_def DECL_FIELDS_Some DECL_FIELDS_OBS_def
           split: if_splits)

lemma sql_hits_wf: "h \<in> set (sql_hits src) \<Longrightarrow> wf_hit h"
  by (auto simp: sql_hits_def dest: block_hits_wf)

lemma scan_declarations_wf: "h \<in> set (scan_declarations src) \<Longrightarrow> wf_hit h"
  by (auto simp: scan_declarations_eq dest: decl_hits_wf)

lemma wf_hit_key_inj:
  assumes "wf_hit h" "wf_hit h'" "key_of h = key_of h'"
  shows "h = h'"
proof -
  from assms(3) have k: "h_target_type h = h_target_type h'" "h_target_name h = h_target_name h'"
    "h_span h = h_span h'" by (simp_all add: key_of_def)
  show ?thesis
  proof (cases "h_target_type h")
    case TABLE
    with assms(1,2) k have "[h] = [h']" by (simp add: wf_hit_def)
    then show ?thesis by simp
  next
    case SQL_FIELD
    with assms(1,2) k have "h = sql_field_hit (h_span h)" "h' = sql_field_hit (h_span h)"
      by (simp_all add: wf_hit_def)
    then show ?thesis by simp
  next
    case DECLARATION
    with assms(1,2) k have "h = decl_hit (h_target_name h) (h_span h)"
      "h' = decl_hit (h_target_name h) (h_span h)"
      by (simp_all add: wf_hit_def)
    then show ?thesis by simp
  qed
qed

lemma first_occurrences_subset: "set (first_occurrences key_of hits) \<subseteq> set hits"
  by (auto simp: first_occurrences_def)

lemma first_occurrences_covers:
  "h \<in> set hits \<Longrightarrow> \<exists>h' \<in> set (first_occurrences key_of hits). key_of h' = key_of h"
proof (induction hits arbitrary: h rule: rev_induct)
  case Nil
  then show ?case by simp
next
  case (snoc x xs)
  show ?case
  proof (cases "h \<in> set xs")
    case True
    with snoc.IH [of h] show ?thesis by (auto simp: first_occurrences_snoc)
  next
    case False
    with snoc.prems have hx: "h = x" by simp
    show ?thesis
    proof (cases "key_of x \<in> key_of ` set xs")
      case True
      then obtain y where "y \<in> set xs" "key_of y = key_of x" by auto
      with snoc.IH [of y] hx show ?thesis by (auto simp: first_occurrences_snoc)
    next
      case False
      with hx show ?thesis by (simp add: first_occurrences_snoc)
    qed
  qed
qed

lemma first_occurrences_keeps:
  assumes "\<forall>x \<in> set hits. wf_hit x" "h \<in> set hits"
  shows "h \<in> set (first_occurrences key_of hits)"
proof -
  from first_occurrences_covers [OF assms(2)] obtain h' where
    h': "h' \<in> set (first_occurrences key_of hits)" "key_of h' = key_of h" by blast
  with first_occurrences_subset have "h' \<in> set hits" by blast
  with assms h' have "h' = h" by (blast intro: wf_hit_key_inj)
  with h' show ?thesis by simp
qed

lemma unit_findings_set:
  "\<exists>fs. unit_findings src = Inr fs \<and>
     set fs = to_finding ` (set (sql_hits src) \<union> set (scan_declarations src))"
proof -
  let ?hits = "sql_hits src @ scan_declarations src"
  have wf: "\<forall>x \<in> set ?hits. wf_hit x"
    using sql_hits_wf scan_declarations_wf by auto
  have "set (first_occurrences key_of ?hits) = set ?hits"
    using first_occurrences_subset [of ?hits] first_occurrences_keeps [OF wf] by blast
  then show ?thesis by (simp add: unit_findings_eq)
qed

lemma py_upper_names:
  "py_upper ''VBUK'' = ''VBUK''" "py_upper ''VBUP'' = ''VBUP''"
  "py_upper ''VBTYP'' = ''VBTYP''" "py_upper ''VBTYP_EXT'' = ''VBTYP_EXT''"
  by (simp_all add: py_upper_def upper_char_def)

lemma wf_hit_finding:
  assumes "wf_hit h"
  shows "(target_type (to_finding h) = SQL_FIELD \<or> target_type (to_finding h) = DECLARATION \<longrightarrow>
            field (to_finding h) = Some (target_name (to_finding h))) \<and>
         (target_type (to_finding h) = TABLE \<longrightarrow>
            field (to_finding h) = None \<and> table (to_finding h) = Some (target_name (to_finding h)) \<and>
            (\<exists>r. suggested_fields (to_finding h) = Some [r])) \<and>
         \<not> ambiguous (to_finding h) \<and>
         py_upper (target_name (to_finding h)) = target_name (to_finding h)"
proof (cases "h_target_type h")
  case TABLE
  with assms have t: "table_hits (h_target_name h) (h_span h) = [h]" by (simp add: wf_hit_def)
  then obtain r where r: "SQL_TABLES (h_target_name h) = Some r"
    by (auto simp: table_hits_def split: option.splits)
  with t have eq: "h = \<lparr>h_target_type = TABLE, h_target_name = h_target_name h, h_field = None,
      h_span = h_span h, h_used_fields = [h_target_name h], h_suggested_fields = Some [r],
      h_suggested_statement =
        ''* TODO: Table '' @ py_upper (h_target_name h) @
        '' obsolete in S/4HANA (Note 2198647). Replace with '' @ r @ ''.''\<rparr>"
    by (simp add: table_hits_def)
  have "h_field h = None" "h_suggested_fields h = Some [r]"
    using arg_cong [OF eq, of h_field] arg_cong [OF eq, of h_suggested_fields] by simp_all
  moreover from r have "py_upper (h_target_name h) = h_target_name h"
    by (auto simp: SQL_TABLES_Some py_upper_names)
  ultimately show ?thesis using TABLE by (simp add: to_finding_def)
next
  case SQL_FIELD
  with assms have eq: "h = sql_field_hit (h_span h)" by (simp add: wf_hit_def)
  have "h_field h = Some ''VBTYP_EXT''" "h_target_name h = ''VBTYP_EXT''"
    using arg_cong [OF eq, of h_field] arg_cong [OF eq, of h_target_name]
    by (simp_all add: sql_field_hit_def)
  then show ?thesis using SQL_FIELD by (simp add: to_finding_def py_upper_names)
next
  case DECLARATION
  with assms have d: "h_target_name h = ''VBTYP'' \<or> h_target_name h = ''VBTYP_EXT''"
    "h = decl_hit (h_target_name h) (h_span h)" by (simp_all add: wf_hit_def)
  have "h_field h = Some (h_target_name h)"
    using arg_cong [OF d(2), of h_field] by (simp add: decl_hit_def)
  with d(1) show ?thesis using DECLARATION by (auto simp: to_finding_def py_upper_names)
qed

lemma finditer_none: "(\<forall>i. rx s i = None) \<Longrightarrow> finditer rx s pos = []"
proof (induction rx s pos rule: finditer.induct)
  case (1 rx s pos)
  show ?case
  proof (cases "length s < pos")
    case True
    then show ?thesis by (simp add: finditer.simps [of rx s pos])
  next
    case False
    from "1.prems" have n: "rx s pos = None" by simp
    with "1.IH"(1) [OF False n] "1.prems" False show ?thesis
      by (simp add: finditer.simps [of rx s pos])
  qed
qed

lemma no_from_no_match:
  "(\<forall>j\<ge>i + 7. from_clause src j = None) \<Longrightarrow> SQL_SELECT_BLOCK_RE src i = None"
proof -
  assume a: "\<forall>j\<ge>i + 7. from_clause src j = None"
  then have "List.find (\<lambda>j. from_clause src j \<noteq> None) [i + 7 ..< length src] = None"
    by (simp add: find_upt_None)
  then show ?thesis by (simp add: SQL_SELECT_BLOCK_RE_def)
qed

lemma no_from_no_hits:
  assumes "\<forall>j. from_clause src j = None"
  shows "scan_sql src = Inr []"
proof -
  from assms have "\<forall>i. SQL_SELECT_BLOCK_RE src i = None" by (simp add: no_from_no_match)
  then have "finditer SQL_SELECT_BLOCK_RE src 0 = []" by (rule finditer_none)
  then show ?thesis by (simp add: scan_sql_eq)
qed

lemma blocks_start_at_select:
  assumes "m \<in> set (finditer SQL_SELECT_BLOCK_RE src 0)"
  shows "select_kw src (m_start m) \<and> m_end m \<le> length src"
proof -
  from finditer_member [OF SQL_SELECT_BLOCK_RE_proper assms]
  have "SQL_SELECT_BLOCK_RE src (m_start m) = Some m" by simp
  from SQL_SELECT_BLOCK_RE_Some [OF this] show ?thesis by simp
qed

section \<open>Word boundaries and tokens\<close>

lemma word_at_append:
  "word_at (pre @ post) (length pre) \<longleftrightarrow> post \<noteq> [] \<and> is_word (hd post)"
  by (cases post) (simp_all add: word_at_def nth_append)

lemma word_at_before:
  "0 < length pre \<and> word_at (pre @ post) (length pre - 1) \<longleftrightarrow> pre \<noteq> [] \<and> is_word (last pre)"
  by (cases pre rule: rev_cases) (simp_all add: word_at_def nth_append)

lemma boundary_append:
  "boundary (pre @ post) (length pre) \<longleftrightarrow>
     ((pre \<noteq> [] \<and> is_word (last pre)) \<noteq> (post \<noteq> [] \<and> is_word (hd post)))"
  unfolding boundary_def word_at_append word_at_before ..

lemma boundary_split:
  assumes "i \<le> length t"
  shows "boundary t i \<longleftrightarrow>
     ((take i t \<noteq> [] \<and> is_word (last (take i t))) \<noteq> (drop i t \<noteq> [] \<and> is_word (hd (drop i t))))"
proof -
  from assms have "length (take i t) = i" by simp
  with boundary_append [of "take i t" "drop i t"] show ?thesis by simp
qed

lemma of_char_ascii_upper:
  "(of_char (ascii_upper c) :: nat) =
     (let n = (of_char c :: nat) in if 97 \<le> n \<and> n \<le> 122 then n - 32 else n)"
proof (cases "97 \<le> (of_char c :: nat) \<and> (of_char c :: nat) \<le> 122")
  case True
  then have "(of_char c :: nat) - 32 < 256" by linarith
  then have "((of_char c :: nat) - 32) mod 256 = of_char c - 32" by (rule mod_less)
  with True show ?thesis by (simp add: ascii_upper_def Let_def)
next
  case False
  then show ?thesis by (auto simp: ascii_upper_def Let_def)
qed

lemma is_word_ascii_upper: "is_word (ascii_upper c) \<longleftrightarrow> is_word c"
proof (cases "97 \<le> (of_char c :: nat) \<and> (of_char c :: nat) \<le> 122")
  case True
  then have "(of_char (ascii_upper c) :: nat) = of_char c - 32" by (simp add: of_char_ascii_upper)
  moreover from True have "65 \<le> (of_char c :: nat) - 32 \<and> (of_char c :: nat) - 32 \<le> 90"
    by linarith
  ultimately have "is_word (ascii_upper c)" by (simp add: is_word_def)
  moreover from True have "is_word c" by (simp add: is_word_def)
  ultimately show ?thesis by simp
next
  case False
  then have "ascii_upper c = c" by (auto simp: ascii_upper_def Let_def)
  then show ?thesis by simp
qed

lemma lit_ci_length:
  assumes "lit_ci kw s i" "kw \<noteq> []"
  shows "i + length kw \<le> length s"
proof -
  from assms(1) have
    "length (map ascii_upper (take (length kw) (drop i s))) = length (map ascii_upper kw)"
    by (simp only: lit_ci_def)
  then have "min (length s - i) (length kw) = length kw" by simp
  moreover from assms(2) have "0 < length kw" by simp
  ultimately show ?thesis by linarith
qed

lemma token_edges:
  assumes "map ascii_upper mid = ''VBTYP_EXT''"
  shows "length mid = 9 \<and> mid \<noteq> [] \<and> is_word (hd mid) \<and> is_word (last mid)"
proof -
  from assms have "length (map ascii_upper mid) = length ''VBTYP_EXT''" by (rule arg_cong)
  then have l: "length mid = 9" by simp
  then have ne: "mid \<noteq> []" by auto
  from ne have "ascii_upper (hd mid) = hd (map ascii_upper mid)" by (simp add: hd_map)
  with assms have "ascii_upper (hd mid) = CHR ''V''" by simp
  then have "is_word (ascii_upper (hd mid))" by (simp add: is_word_def)
  then have h: "is_word (hd mid)" by (simp only: is_word_ascii_upper)
  from ne have "ascii_upper (last mid) = last (map ascii_upper mid)" by (simp add: last_map)
  with assms have "ascii_upper (last mid) = CHR ''T''" by simp
  then have "is_word (ascii_upper (last mid))" by (simp add: is_word_def)
  then have "is_word (last mid)" by (simp only: is_word_ascii_upper)
  with l ne h show ?thesis by simp
qed

lemma VBTYP_EXT_upper: "map ascii_upper ''VBTYP_EXT'' = ''VBTYP_EXT''"
  by (simp add: ascii_upper_def)

lemma lit_ci_VBTYP_EXT:
  "lit_ci ''VBTYP_EXT'' t i \<longleftrightarrow> map ascii_upper (take 9 (drop i t)) = ''VBTYP_EXT''"
proof -
  have "length ''VBTYP_EXT'' = 9" by simp
  then show ?thesis by (simp only: lit_ci_def VBTYP_EXT_upper)
qed

lemma token_at_offset:
  assumes "map ascii_upper mid = ''VBTYP_EXT''"
  shows "(boundary (pre @ mid @ post) (length pre) \<and>
          lit_ci ''VBTYP_EXT'' (pre @ mid @ post) (length pre) \<and>
          boundary (pre @ mid @ post) (length pre + 9)) \<longleftrightarrow>
         (pre = [] \<or> \<not> is_word (last pre)) \<and> (post = [] \<or> \<not> is_word (hd post))"
proof -
  from token_edges [OF assms] have e: "length mid = 9" "mid \<noteq> []" "is_word (hd mid)"
    "is_word (last mid)" by simp_all
  have b1: "boundary (pre @ mid @ post) (length pre) \<longleftrightarrow> (pre = [] \<or> \<not> is_word (last pre))"
    unfolding boundary_append using e(2,3) by auto
  have "boundary ((pre @ mid) @ post) (length (pre @ mid)) \<longleftrightarrow> (post = [] \<or> \<not> is_word (hd post))"
    unfolding boundary_append using e(2,4) by auto
  then have b2: "boundary (pre @ mid @ post) (length pre + 9) \<longleftrightarrow> (post = [] \<or> \<not> is_word (hd post))"
    using e(1) by simp
  have "take 9 (drop (length pre) (pre @ mid @ post)) = mid" using e(1) by simp
  then have l: "lit_ci ''VBTYP_EXT'' (pre @ mid @ post) (length pre)"
    using assms by (simp only: lit_ci_VBTYP_EXT)
  from b1 b2 l show ?thesis by simp
qed

lemma search_vbtyp_ext_iff: "search_vbtyp_ext t \<longleftrightarrow> token_occurs ''VBTYP_EXT'' t"
proof
  assume "search_vbtyp_ext t"
  then obtain i where i: "boundary t i" "lit_ci ''VBTYP_EXT'' t i" "boundary t (i + 9)"
    unfolding search_vbtyp_ext_def list_ex_iff by blast
  from lit_ci_length [OF i(2)] have len: "i + 9 \<le> length t" by simp
  define pre where "pre = take i t"
  define mid where "mid = take 9 (drop i t)"
  define post where "post = drop (i + 9) t"
  have t: "t = pre @ mid @ post"
  proof -
    have "drop i t = take 9 (drop i t) @ drop 9 (drop i t)" by (simp only: append_take_drop_id)
    moreover have "drop 9 (drop i t) = drop (i + 9) t" by (simp add: add.commute)
    moreover have "t = take i t @ drop i t" by simp
    ultimately show ?thesis unfolding pre_def mid_def post_def by metis
  qed
  from i(2) have up: "map ascii_upper mid = ''VBTYP_EXT''"
    unfolding mid_def by (simp only: lit_ci_VBTYP_EXT)
  have lp: "length pre = i" using len by (simp add: pre_def)
  from i t lp have "boundary (pre @ mid @ post) (length pre) \<and>
      lit_ci ''VBTYP_EXT'' (pre @ mid @ post) (length pre) \<and>
      boundary (pre @ mid @ post) (length pre + 9)" by simp
  then have "(pre = [] \<or> \<not> is_word (last pre)) \<and> (post = [] \<or> \<not> is_word (hd post))"
    by (simp only: token_at_offset [OF up])
  then have "t = pre @ mid @ post \<and> map ascii_upper mid = ''VBTYP_EXT'' \<and>
      (pre = [] \<or> \<not> is_word (last pre)) \<and> (post = [] \<or> \<not> is_word (hd post))"
    using t up by (intro conjI) simp_all
  then show "token_occurs ''VBTYP_EXT'' t"
    unfolding token_occurs_def by (intro exI)
next
  assume "token_occurs ''VBTYP_EXT'' t"
  then have "\<exists>pre mid post. t = pre @ mid @ post \<and> map ascii_upper mid = ''VBTYP_EXT'' \<and>
      (pre = [] \<or> \<not> is_word (last pre)) \<and> (post = [] \<or> \<not> is_word (hd post))"
    unfolding token_occurs_def .
  then obtain pre where "\<exists>mid post. t = pre @ mid @ post \<and> map ascii_upper mid = ''VBTYP_EXT'' \<and>
      (pre = [] \<or> \<not> is_word (last pre)) \<and> (post = [] \<or> \<not> is_word (hd post))" ..
  then obtain mid where "\<exists>post. t = pre @ mid @ post \<and> map ascii_upper mid = ''VBTYP_EXT'' \<and>
      (pre = [] \<or> \<not> is_word (last pre)) \<and> (post = [] \<or> \<not> is_word (hd post))" ..
  then obtain post where all: "t = pre @ mid @ post \<and> map ascii_upper mid = ''VBTYP_EXT'' \<and>
      ((pre = [] \<or> \<not> is_word (last pre)) \<and> (post = [] \<or> \<not> is_word (hd post)))" ..
  from all have t: "t = pre @ mid @ post" by (rule conjunct1)
  from all have up: "map ascii_upper mid = ''VBTYP_EXT''" by (rule conjunct1 [OF conjunct2])
  from all have b: "(pre = [] \<or> \<not> is_word (last pre)) \<and> (post = [] \<or> \<not> is_word (hd post))"
    by (rule conjunct2 [OF conjunct2])
  from b have "boundary (pre @ mid @ post) (length pre) \<and>
      lit_ci ''VBTYP_EXT'' (pre @ mid @ post) (length pre) \<and>
      boundary (pre @ mid @ post) (length pre + 9)"
    by (simp only: token_at_offset [OF up])
  with t have c: "boundary t (length pre) \<and> lit_ci ''VBTYP_EXT'' t (length pre) \<and>
      boundary t (length pre + 9)" by simp
  have "length pre \<in> set [0 ..< Suc (length t)]" using t by simp
  with c show "search_vbtyp_ext t"
    unfolding search_vbtyp_ext_def list_ex_iff by blast
qed

lemma select_star_VBUK:
  "unit_findings ''SELECT * FROM VBUK'' =
     Inr [\<lparr>table = Some ''VBUK'', field = None, target_type = TABLE, target_name = ''VBUK'',
           start_char_in_unit = 0, end_char_in_unit = 18, used_fields = [''VBUK''],
           ambiguous = False, suggested_fields = Some [''VBAK''],
           suggested_statement =
             ''* TODO: Table VBUK obsolete in S/4HANA (Note 2198647). Replace with VBAK.''\<rparr>]"
  by code_simp

lemma select_star_VBUP:
  "unit_findings ''SELECT * FROM VBUP'' =
     Inr [\<lparr>table = Some ''VBUP'', field = None, target_type = TABLE, target_name = ''VBUP'',
           start_char_in_unit = 0, end_char_in_unit = 18, used_fields = [''VBUP''],
           ambiguous = False, suggested_fields = Some [''VBAP''],
           suggested_statement =
             ''* TODO: Table VBUP obsolete in S/4HANA (Note 2198647). Replace with VBAP.''\<rparr>]"
  by code_simp

lemma assess_single:
  "assess [u] = (case unit_findings (unit_src u) of Inl e \<Rightarrow> Inl e | Inr fs \<Rightarrow> Inr [result_of u fs])"
  by (simp add: assess_def result_of_def split: sum.splits)

lemma table_hits_no_field: "filter (\<lambda>h. h_target_type h = SQL_FIELD) (table_hits t sp) = []"
proof -
  have "\<forall>h \<in> set (table_hits t sp). h_target_type h \<noteq> SQL_FIELD"
    using table_hits_wf by fastforce
  then show ?thesis by (simp add: filter_empty_conv)
qed

lemma join_hits_no_field: "filter (\<lambda>h. h_target_type h = SQL_FIELD) (join_hits rest_text) = []"
proof -
  have "\<forall>h \<in> set (join_hits rest_text). h_target_type h \<noteq> SQL_FIELD"
    using join_hits_wf by fastforce
  then show ?thesis by (simp add: filter_empty_conv)
qed

lemma field_hits_all_field:
  "filter (\<lambda>h. h_target_type h = SQL_FIELD) (field_hits src stmt) = field_hits src stmt"
  by (simp add: field_hits_def sql_field_hit_def)

lemma lower_case_findings:
  "(case unit_findings ''select vbtyp_ext from vbuk. data x like vbtyp.'' of
      Inl e \<Rightarrow> False
    | Inr fs \<Rightarrow> map (\<lambda>f. (target_type f, target_name f, field f, table f)) fs =
        [(TABLE, ''VBUK'', None, Some ''VBUK''),
         (SQL_FIELD, ''VBTYP_EXT'', Some ''VBTYP_EXT'', None),
         (DECLARATION, ''VBTYP'', Some ''VBTYP'', None)])"
  by code_simp

lemma nested_select_blocks:
  "finditer SQL_SELECT_BLOCK_RE ''SELECT a. SELECT b FROM VBUK.'' 0 =
     [\<lparr>m_start = 0, m_end = 29, g_start = 24, g_end = 28\<rparr>]"
  by code_simp

lemma from_clause_bound: "from_clause s j \<noteq> None \<Longrightarrow> j + 4 \<le> length s"
proof -
  assume "from_clause s j \<noteq> None"
  then have "lit_ci ''FROM'' s j" by (auto simp: from_clause_def split: if_splits)
  from lit_ci_length [OF this] show ?thesis by simp
qed

lemma no_from_example: "\<forall>j. from_clause ''SELECT a. SELECT b'' j = None"
proof
  fix j
  have small: "\<forall>j \<in> set [0 ..< 15]. from_clause ''SELECT a. SELECT b'' j = None" by code_simp
  show "from_clause ''SELECT a. SELECT b'' j = None"
  proof (cases "j < 15")
    case True
    with small show ?thesis by simp
  next
    case False
    then have "\<not> j + 4 \<le> length ''SELECT a. SELECT b''" by simp
    with from_clause_bound [of "''SELECT a. SELECT b''" j] show ?thesis by blast
  qed
qed





section \<open>A declaration in any context\<close>

lemma takeWhile_stops:
  assumes "j < length xs" "\<not> P (xs ! j)"
  shows "length (takeWhile P xs) \<le> j"
proof (rule ccontr)
  assume "\<not> length (takeWhile P xs) \<le> j"
  then have lt: "j < length (takeWhile P xs)" by simp
  then have "takeWhile P xs ! j \<in> set (takeWhile P xs)" by (rule nth_mem)
  then have "P (takeWhile P xs ! j)" by (auto dest: set_takeWhileD)
  moreover from lt have "takeWhile P xs ! j = xs ! j" by (rule takeWhile_nth)
  ultimately show False using assms(2) by simp
qed

lemma run_end_stops:
  assumes "a \<le> q" "q < length s" "\<not> P (s ! q)"
  shows "run_end P s a \<le> q"
proof -
  from assms(1,2) have "q - a < length (drop a s)" "drop a s ! (q - a) = s ! q" by simp_all
  with assms(3) have "length (takeWhile P (drop a s)) \<le> q - a"
    using takeWhile_stops [of "q - a" "drop a s" P] by simp
  with assms(1) show ?thesis by (simp add: run_end_def)
qed

lemma lit_ci_nth:
  assumes "lit_ci kw s i" "j < length kw"
  shows "ascii_upper (s ! (i + j)) = ascii_upper (kw ! j)"
proof -
  from assms(1) have eq: "map ascii_upper (take (length kw) (drop i s)) = map ascii_upper kw"
    by (simp only: lit_ci_def)
  then have "length (map ascii_upper (take (length kw) (drop i s))) = length (map ascii_upper kw)"
    by (rule arg_cong)
  then have len: "length (take (length kw) (drop i s)) = length kw" by simp
  with assms(2) have j: "j < length (take (length kw) (drop i s))" by simp
  from len assms(2) have il: "i + j < length s" by simp
  from eq have "map ascii_upper (take (length kw) (drop i s)) ! j = map ascii_upper kw ! j"
    by (rule arg_cong)
  with j assms(2) have "ascii_upper (take (length kw) (drop i s) ! j) = ascii_upper (kw ! j)"
    by (simp only: nth_map)
  moreover from assms(2) il have "take (length kw) (drop i s) ! j = s ! (i + j)" by simp
  ultimately show ?thesis by simp
qed

lemma is_ident_ascii_upper: "is_ident (ascii_upper c) \<longleftrightarrow> is_ident c"
proof (cases "97 \<le> (of_char c :: nat) \<and> (of_char c :: nat) \<le> 122")
  case True
  then have "(of_char (ascii_upper c) :: nat) = of_char c - 32" by (simp add: of_char_ascii_upper)
  moreover from True have "65 \<le> (of_char c :: nat) - 32 \<and> (of_char c :: nat) - 32 \<le> 90"
    by linarith
  ultimately have "is_ident (ascii_upper c)" by (simp add: is_ident_def)
  moreover from True have "is_ident c" by (simp add: is_ident_def)
  ultimately show ?thesis by simp
next
  case False
  then have "ascii_upper c = c" by (auto simp: ascii_upper_def Let_def)
  then show ?thesis by simp
qed

lemma is_ident_not_space: "is_ident c \<Longrightarrow> \<not> is_space c"
  by (auto simp: is_ident_def is_space_def Let_def)

lemma is_ident_word: "is_ident c \<Longrightarrow> is_word c"
  unfolding is_ident_def is_word_def Let_def by blast

lemma keyword_chars:
  assumes "lit_ci ''TYPE'' s i \<or> lit_ci ''LIKE'' s i" "i \<le> q" "q < i + 4"
  shows "is_ident (s ! q)" and "q = i + 3 \<Longrightarrow> ascii_upper (s ! q) = CHR ''E''"
proof -
  from assms(2,3) obtain j where j: "q = i + j" "j < 4" by (metis add_diff_inverse_nat less_diff_conv2 not_le add.commute nat_add_left_cancel_less)
  from assms(1) have u: "ascii_upper (s ! q) = ascii_upper (''TYPE'' ! j) \<or>
      ascii_upper (s ! q) = ascii_upper (''LIKE'' ! j)"
    using lit_ci_nth [of "''TYPE''" s i j] lit_ci_nth [of "''LIKE''" s i j] j by auto
  from j(2) have "j = 0 \<or> j = 1 \<or> j = 2 \<or> j = 3" by arith
  then have "is_ident (ascii_upper (''TYPE'' ! j)) \<and> is_ident (ascii_upper (''LIKE'' ! j))"
    by (auto simp: is_ident_def ascii_upper_def)
  with u have "is_ident (ascii_upper (s ! q))" by auto
  then show "is_ident (s ! q)" by (simp only: is_ident_ascii_upper)
  show "ascii_upper (s ! q) = CHR ''E''" if "q = i + 3"
  proof -
    from that j have "j = 3" by simp
    with u show ?thesis by (auto simp: ascii_upper_def)
  qed
qed

lemma declaration_cannot_cross:
  assumes s: "s = L0 @ [x, sp] @ R" and R: "R \<noteq> []" "\<not> is_space (hd R)"
    and x: "\<not> is_space x" "ascii_upper x \<noteq> CHR ''E''" and sp: "\<not> is_ident sp"
    and i: "i < length L0 + 2" and m: "DECLARATION_RE s i = Some m"
  shows "m_end m \<le> length L0 + 2"
proof -
  let ?n = "length L0"
  define fs where "fs = run_end is_space s (i + 4)"
  define fe where "fe = run_end is_ident s fs"
  from m have kw: "lit_ci ''TYPE'' s i \<or> lit_ci ''LIKE'' s i" and
    r: "i + 4 < fs" "fs < fe" and e: "m_end m = fe"
    by (auto simp: DECLARATION_RE_def Let_def fs_def fe_def split: if_splits)
  from s R have nx: "s ! ?n = x" "s ! (?n + 1) = sp" "s ! (?n + 2) = hd R" "?n + 2 < length s"
    by (cases R; simp add: nth_append)+
  show ?thesis
  proof (cases "fs \<le> ?n + 1")
    case True
    with nx sp have "run_end is_ident s fs \<le> ?n + 1"
      by (intro run_end_stops) simp_all
    then show ?thesis by (simp add: e fe_def)
  next
    case False
    have "\<not> i + 4 \<le> ?n"
    proof
      assume "i + 4 \<le> ?n"
      with nx x have "run_end is_space s (i + 4) \<le> ?n" by (intro run_end_stops) simp_all
      with False show False by (simp add: fs_def)
    qed
    then consider "i + 3 = ?n" | "i \<le> ?n + 1" "?n + 1 < i + 4" using i by linarith
    then show ?thesis
    proof cases
      case 1
      from keyword_chars(2) [OF kw, of "i + 3"] have "ascii_upper (s ! (i + 3)) = CHR ''E''" by simp
      with 1 nx x show ?thesis by simp
    next
      case 2
      from keyword_chars(1) [OF kw 2] nx sp show ?thesis by simp
    qed
  qed
qed

lemma finditer_reaches:
  assumes "proper rx s" "rx s k = Some m" "k \<le> length s"
    "\<forall>i<k. \<forall>m'. rx s i = Some m' \<longrightarrow> m_end m' \<le> k"
  shows "pos \<le> k \<Longrightarrow> m \<in> set (finditer rx s pos)"
  using assms
proof (induction rx s pos rule: finditer.induct)
  case (1 rx s pos)
  from "1.prems"(1,4) have nl: "\<not> length s < pos" by simp
  show ?case
  proof (cases "pos = k")
    case True
    with "1.prems" nl show ?thesis by (simp add: finditer.simps [of rx s k])
  next
    case False
    with "1.prems"(1) have lt: "pos < k" by simp
    show ?thesis
    proof (cases "rx s pos")
      case None
      from lt have "Suc pos \<le> k" by simp
      from "1.IH"(1) [OF nl None this "1.prems"(2-5)] nl None show ?thesis
        by (simp add: finditer.simps [of rx s pos])
    next
      case (Some m')
      with "1.prems"(2) have p: "m_start m' = pos" "pos < m_end m'" by (auto simp: proper_def)
      from lt Some "1.prems"(5) have "m_end m' \<le> k" by blast
      with p have "(if pos < m_end m' then m_end m' else Suc pos) \<le> k" by simp
      from "1.IH"(2) [OF nl Some this "1.prems"(2-5)] nl Some show ?thesis
        by (simp add: finditer.simps [of rx s pos])
    qed
  qed
qed

lemma declaration_matches:
  assumes s: "s = L @ ''TYPE '' @ fld @ R" and L: "L = [] \<or> \<not> is_word (last L)"
    and fld: "fld \<noteq> []" "\<forall>c \<in> set fld. is_ident c" and R: "R = [] \<or> \<not> is_ident (hd R)"
  shows "DECLARATION_RE s (length L) =
           Some \<lparr>m_start = length L, m_end = length L + 5 + length fld,
                 g_start = length L + 5, g_end = length L + 5 + length fld\<rparr>"
proof -
  let ?k = "length L"
  have wT: "is_word CHR ''T''" "is_word CHR ''E''" "\<not> is_word CHR '' ''" "is_space CHR '' ''"
    by (simp_all add: is_word_def is_space_def)
  have b1: "boundary s ?k"
    unfolding s boundary_append using L wT by auto
  have d0: "drop ?k s = ''TYPE '' @ fld @ R" by (simp add: s)
  have lit: "lit_ci ''TYPE'' s ?k"
    by (simp add: lit_ci_def d0)
  have e4: "(L @ ''TYPE'') @ ('' '' @ fld @ R) = s" by (simp add: s)
  have l4: "length (L @ ''TYPE'') = ?k + 4" by simp
  have "boundary ((L @ ''TYPE'') @ ('' '' @ fld @ R)) (length (L @ ''TYPE''))"
    unfolding boundary_append using wT by simp
  then have b2: "boundary s (?k + 4)" by (simp only: e4 l4)
  have d4: "drop (?k + 4) s = '' '' @ fld @ R" by (simp add: s)
  from fld have hd: "\<not> is_space (hd fld)" by (cases fld) (auto dest: is_ident_not_space)
  with fld(1) have "takeWhile is_space (fld @ R) = []"
    by (cases fld) simp_all
  with wT have "takeWhile is_space ('' '' @ fld @ R) = '' ''" by simp
  then have fs: "run_end is_space s (?k + 4) = ?k + 5" by (simp add: run_end_def d4)
  have d5: "drop (?k + 5) s = fld @ R" by (simp add: s)
  from R have "takeWhile is_ident R = []" by (cases R) auto
  with fld(2) have "takeWhile is_ident (fld @ R) = fld" by simp
  then have fe: "run_end is_ident s (?k + 5) = ?k + 5 + length fld" by (simp add: run_end_def d5)
  from fld(1) have "0 < length fld" by simp
  with b1 lit b2 fs fe show ?thesis by (simp add: DECLARATION_RE_def Let_def)
qed

lemma declaration_found:
  assumes s: "s = pre @ ''DATA '' @ [v] @ '' TYPE '' @ fld @ ''.'' @ post"
    and v: "\<not> is_space v" "ascii_upper v \<noteq> CHR ''E''"
    and fld: "fld \<noteq> []" "\<forall>c \<in> set fld. is_ident c"
  shows "\<lparr>m_start = length pre + 7, m_end = length pre + 12 + length fld,
           g_start = length pre + 12, g_end = length pre + 12 + length fld\<rparr>
         \<in> set (finditer DECLARATION_RE s 0)"
proof -
  let ?A = "pre @ ''DATA ''"
  let ?L = "?A @ [v, CHR '' '']"
  let ?m = "\<lparr>m_start = length pre + 7, m_end = length pre + 12 + length fld,
           g_start = length pre + 12, g_end = length pre + 12 + length fld\<rparr>"
  have w: "\<not> is_word CHR '' ''" "\<not> is_ident CHR '' ''" "\<not> is_ident CHR ''.''" "\<not> is_space CHR ''T''"
    by (simp_all add: is_word_def is_ident_def is_space_def)
  have s1: "s = ?L @ ''TYPE '' @ fld @ (''.'' @ post)" by (simp add: s)
  have l7: "length ?L = length pre + 7" by simp
  have "DECLARATION_RE s (length ?L) =
      Some \<lparr>m_start = length ?L, m_end = length ?L + 5 + length fld,
            g_start = length ?L + 5, g_end = length ?L + 5 + length fld\<rparr>"
    using s1 _ fld by (rule declaration_matches) (simp_all add: w)
  then have "DECLARATION_RE s (length pre + 7) =
      Some \<lparr>m_start = length pre + 7, m_end = length pre + 7 + 5 + length fld,
            g_start = length pre + 7 + 5, g_end = length pre + 7 + 5 + length fld\<rparr>"
    by (simp only: l7)
  then have at: "DECLARATION_RE s (length pre + 7) = Some ?m" by simp
  have s2: "s = ?A @ [v, CHR '' ''] @ (''TYPE '' @ fld @ ''.'' @ post)" by (simp add: s)
  have cross: "\<forall>i<length pre + 7. \<forall>m'. DECLARATION_RE s i = Some m' \<longrightarrow> m_end m' \<le> length pre + 7"
  proof (intro allI impI)
    fix i m'
    assume "i < length pre + 7" "DECLARATION_RE s i = Some m'"
    then have "m_end m' \<le> length ?A + 2"
      using declaration_cannot_cross [OF s2 _ _ v w(2), of i m'] by (simp add: w)
    then show "m_end m' \<le> length pre + 7" by simp
  qed
  have "length pre + 7 \<le> length s" by (simp add: s)
  from finditer_reaches [OF DECLARATION_RE_proper at this cross] show ?thesis by simp
qed

lemma declaration_group:
  assumes "s = pre @ ''DATA '' @ [v] @ '' TYPE '' @ fld @ ''.'' @ post"
  shows "slice s (length pre + 12) (length pre + 12 + length fld) = fld"
proof -
  have e: "s = (pre @ ''DATA '' @ [v] @ '' TYPE '') @ fld @ ''.'' @ post" by (simp add: assms)
  have l: "length (pre @ ''DATA '' @ [v] @ '' TYPE '') = length pre + 12" by simp
  have "drop (length (pre @ ''DATA '' @ [v] @ '' TYPE '')) s = fld @ ''.'' @ post"
    by (simp only: e append_eq_conv_conj drop_append) simp
  then have "drop (length pre + 12) s = fld @ ''.'' @ post" by (simp only: l)
  then show ?thesis by (simp add: slice_def)
qed

lemma declaration_finding:
  assumes s: "s = pre @ ''DATA '' @ [v] @ '' TYPE '' @ fld @ ''.'' @ post"
    and v: "\<not> is_space v" "ascii_upper v \<noteq> CHR ''E''"
    and fld: "fld \<noteq> []" "\<forall>c \<in> set fld. is_ident c"
    and cat: "DECL_FIELDS (py_upper fld) \<noteq> None \<or> py_upper fld \<in> DECL_FIELDS_OBS"
  shows "\<exists>fs. unit_findings s = Inr fs \<and>
           to_finding (decl_hit (py_upper fld) (length pre + 7, length pre + 12 + length fld))
             \<in> set fs"
proof -
  let ?m = "\<lparr>m_start = length pre + 7, m_end = length pre + 12 + length fld,
           g_start = length pre + 12, g_end = length pre + 12 + length fld\<rparr>"
  let ?h = "decl_hit (py_upper fld) (length pre + 7, length pre + 12 + length fld)"
  from declaration_found [OF s v fld] have m: "?m \<in> set (finditer DECLARATION_RE s 0)" .
  have "group_named s ?m = fld"
    using declaration_group [OF s] by (simp add: group_named_def)
  with cat have "decl_hits s ?m = [?h]" by (simp add: decl_hits_def Let_def)
  with m have "?h \<in> set (scan_declarations s)"
    by (auto simp: scan_declarations_eq intro!: bexI [of _ ?m])
  moreover from unit_findings_set [of s] obtain fs where
    fs: "unit_findings s = Inr fs \<and>
         set fs = to_finding ` (set (sql_hits s) \<union> set (scan_declarations s))" ..
  ultimately have "to_finding ?h \<in> set fs" by simp
  with fs show ?thesis by (intro exI [of _ fs]) simp
qed

section \<open>Keywords, FROM clauses and the blocks of the SQL scanner\<close>

lemma keyword_edges:
  assumes "map ascii_upper mid = kw" "kw \<noteq> []" "is_word (hd kw)" "is_word (last kw)"
  shows "length mid = length kw \<and> mid \<noteq> [] \<and> is_word (hd mid) \<and> is_word (last mid)"
proof -
  from assms(1) have "length (map ascii_upper mid) = length kw" by (rule arg_cong)
  then have l: "length mid = length kw" by simp
  with assms(2) have ne: "mid \<noteq> []" by auto
  from ne have "ascii_upper (hd mid) = hd (map ascii_upper mid)" by (simp add: hd_map)
  with assms(1,3) have "is_word (ascii_upper (hd mid))" by simp
  then have h: "is_word (hd mid)" by (simp only: is_word_ascii_upper)
  from ne have "ascii_upper (last mid) = last (map ascii_upper mid)" by (simp add: last_map)
  with assms(1,4) have "is_word (ascii_upper (last mid))" by simp
  then have "is_word (last mid)" by (simp only: is_word_ascii_upper)
  with l ne h show ?thesis by simp
qed

lemma keyword_at_offset:
  assumes mid: "map ascii_upper mid = kw" and kw: "kw \<noteq> []" "is_word (hd kw)" "is_word (last kw)"
    and up: "map ascii_upper kw = kw"
  shows "(boundary (pre @ mid @ post) (length pre) \<and>
          lit_ci kw (pre @ mid @ post) (length pre) \<and>
          boundary (pre @ mid @ post) (length pre + length kw)) \<longleftrightarrow>
         (pre = [] \<or> \<not> is_word (last pre)) \<and> (post = [] \<or> \<not> is_word (hd post))"
proof -
  from keyword_edges [OF mid kw] have e: "length mid = length kw" "mid \<noteq> []" "is_word (hd mid)"
    "is_word (last mid)" by simp_all
  have b1: "boundary (pre @ mid @ post) (length pre) \<longleftrightarrow> (pre = [] \<or> \<not> is_word (last pre))"
    unfolding boundary_append using e(2,3) by auto
  have "boundary ((pre @ mid) @ post) (length (pre @ mid)) \<longleftrightarrow> (post = [] \<or> \<not> is_word (hd post))"
    unfolding boundary_append using e(2,4) by auto
  then have b2: "boundary (pre @ mid @ post) (length pre + length kw) \<longleftrightarrow>
      (post = [] \<or> \<not> is_word (hd post))"
    using e(1) by simp
  have "take (length kw) (drop (length pre) (pre @ mid @ post)) = mid" using e(1) by simp
  then have "map ascii_upper (take (length kw) (drop (length pre) (pre @ mid @ post))) =
      map ascii_upper kw" using mid up by simp
  then have l: "lit_ci kw (pre @ mid @ post) (length pre)" by (simp only: lit_ci_def)
  from b1 b2 l show ?thesis by simp
qed

lemma keyword_at_iff:
  assumes kw: "kw \<noteq> []" "is_word (hd kw)" "is_word (last kw)" and up: "map ascii_upper kw = kw"
  shows "boundary s i \<and> lit_ci kw s i \<and> boundary s (i + length kw) \<longleftrightarrow> keyword_at kw s i"
proof
  assume a: "boundary s i \<and> lit_ci kw s i \<and> boundary s (i + length kw)"
  then have lit: "lit_ci kw s i" by simp
  from lit_ci_length [OF lit kw(1)] have len: "i + length kw \<le> length s" .
  define pre where "pre = take i s"
  define mid where "mid = take (length kw) (drop i s)"
  define post where "post = drop (i + length kw) s"
  have s: "s = pre @ mid @ post"
  proof -
    have "drop i s = take (length kw) (drop i s) @ drop (length kw) (drop i s)"
      by (simp only: append_take_drop_id)
    moreover have "drop (length kw) (drop i s) = drop (i + length kw) s" by (simp add: add.commute)
    moreover have "s = take i s @ drop i s" by simp
    ultimately show ?thesis unfolding pre_def mid_def post_def by metis
  qed
  from lit have "map ascii_upper mid = map ascii_upper kw"
    unfolding mid_def by (simp only: lit_ci_def)
  with up have m: "map ascii_upper mid = kw" by simp
  have lp: "length pre = i" using len by (simp add: pre_def)
  from a s lp have "boundary (pre @ mid @ post) (length pre) \<and>
      lit_ci kw (pre @ mid @ post) (length pre) \<and>
      boundary (pre @ mid @ post) (length pre + length kw)" by simp
  then have "(pre = [] \<or> \<not> is_word (last pre)) \<and> (post = [] \<or> \<not> is_word (hd post))"
    by (simp only: keyword_at_offset [OF m kw up])
  with s lp m have "s = pre @ mid @ post \<and> length pre = i \<and> map ascii_upper mid = kw \<and>
      (pre = [] \<or> \<not> is_word (last pre)) \<and> (post = [] \<or> \<not> is_word (hd post))"
    by (intro conjI) simp_all
  then show "keyword_at kw s i" unfolding keyword_at_def by (intro exI)
next
  assume "keyword_at kw s i"
  then have "\<exists>pre mid post. s = pre @ mid @ post \<and> length pre = i \<and> map ascii_upper mid = kw \<and>
      ((pre = [] \<or> \<not> is_word (last pre)) \<and> (post = [] \<or> \<not> is_word (hd post)))"
    unfolding keyword_at_def by simp
  then obtain pre where "\<exists>mid post. s = pre @ mid @ post \<and> length pre = i \<and>
      map ascii_upper mid = kw \<and>
      ((pre = [] \<or> \<not> is_word (last pre)) \<and> (post = [] \<or> \<not> is_word (hd post)))" ..
  then obtain mid where "\<exists>post. s = pre @ mid @ post \<and> length pre = i \<and>
      map ascii_upper mid = kw \<and>
      ((pre = [] \<or> \<not> is_word (last pre)) \<and> (post = [] \<or> \<not> is_word (hd post)))" ..
  then obtain post where all: "s = pre @ mid @ post \<and> length pre = i \<and>
      map ascii_upper mid = kw \<and>
      ((pre = [] \<or> \<not> is_word (last pre)) \<and> (post = [] \<or> \<not> is_word (hd post)))" ..
  from all have s: "s = pre @ mid @ post" by (rule conjunct1)
  from all have lp: "length pre = i" by (rule conjunct1 [OF conjunct2])
  from all have m: "map ascii_upper mid = kw" by (rule conjunct1 [OF conjunct2 [OF conjunct2]])
  from all have b: "(pre = [] \<or> \<not> is_word (last pre)) \<and> (post = [] \<or> \<not> is_word (hd post))"
    by (rule conjunct2 [OF conjunct2 [OF conjunct2]])
  from b have "boundary (pre @ mid @ post) (length pre) \<and>
      lit_ci kw (pre @ mid @ post) (length pre) \<and>
      boundary (pre @ mid @ post) (length pre + length kw)"
    by (simp only: keyword_at_offset [OF m kw up])
  then show "boundary s i \<and> lit_ci kw s i \<and> boundary s (i + length kw)"
    by (simp only: s lp)
qed

lemma select_kw_iff: "select_kw s i \<longleftrightarrow> keyword_at ''SELECT'' s i"
proof -
  have k: "(boundary s i \<and> lit_ci ''SELECT'' s i \<and> boundary s (i + length ''SELECT'')) \<longleftrightarrow>
      keyword_at ''SELECT'' s i"
    by (rule keyword_at_iff) (simp_all add: is_word_def ascii_upper_def)
  have l: "length ''SELECT'' = 6" by simp
  from k show ?thesis unfolding select_kw_def by (simp only: l)
qed

lemma from_kw_iff:
  "boundary s j \<and> lit_ci ''FROM'' s j \<and> boundary s (j + 4) \<longleftrightarrow> keyword_at ''FROM'' s j"
proof -
  have k: "(boundary s j \<and> lit_ci ''FROM'' s j \<and> boundary s (j + length ''FROM'')) \<longleftrightarrow>
      keyword_at ''FROM'' s j"
    by (rule keyword_at_iff) (simp_all add: is_word_def ascii_upper_def)
  have l: "length ''FROM'' = 4" by simp
  from k show ?thesis by (simp only: l)
qed

lemma lookahead_iff: "lookahead s p \<longleftrightarrow> block_stop s p"
  by (simp only: lookahead_def at_end_def block_stop_def select_kw_iff)

lemma is_word_not_space: "is_word c \<Longrightarrow> \<not> is_space c"
  unfolding is_word_def is_space_def Let_def by arith

lemma run_end_all:
  assumes "a \<le> q" "q < run_end P s a"
  shows "P (s ! q) \<and> q < length s"
proof -
  let ?xs = "drop a s"
  from assms have lt: "q - a < length (takeWhile P ?xs)" by (simp add: run_end_def)
  also have "\<dots> \<le> length ?xs" by (rule length_takeWhile_le)
  finally have qa: "q - a < length s - a" by simp
  with assms(1) have ql: "q < length s" by arith
  from lt have "takeWhile P ?xs ! (q - a) \<in> set (takeWhile P ?xs)" by (rule nth_mem)
  then have "P (takeWhile P ?xs ! (q - a))" by (auto dest: set_takeWhileD)
  moreover from lt have "takeWhile P ?xs ! (q - a) = ?xs ! (q - a)" by (rule takeWhile_nth)
  moreover from assms(1) ql have "?xs ! (q - a) = s ! q" by simp
  ultimately show ?thesis using ql by simp
qed

lemma run_end_next:
  assumes "a \<le> length s" "run_end P s a < length s"
  shows "\<not> P (s ! run_end P s a)"
proof -
  let ?xs = "drop a s"
  from assms have "length (takeWhile P ?xs) < length ?xs" by (simp add: run_end_def)
  then have "\<not> P (?xs ! length (takeWhile P ?xs))" by (rule nth_length_takeWhile)
  moreover from assms have "?xs ! length (takeWhile P ?xs) = s ! run_end P s a"
    by (simp add: run_end_def)
  ultimately show ?thesis by simp
qed

lemma run_end_eq:
  assumes "a \<le> e" "e \<le> length s" "\<forall>q. a \<le> q \<and> q < e \<longrightarrow> P (s ! q)"
    "e < length s \<longrightarrow> \<not> P (s ! e)"
  shows "run_end P s a = e"
proof (rule antisym)
  show "run_end P s a \<le> e"
  proof (cases "e < length s")
    case True
    with assms(1,4) show ?thesis by (intro run_end_stops) simp_all
  next
    case False
    with assms(2) have "e = length s" by simp
    with assms(1) show ?thesis by (simp add: run_end_le_length)
  qed
  show "e \<le> run_end P s a"
  proof (rule ccontr)
    assume "\<not> e \<le> run_end P s a"
    then have lt: "run_end P s a < e" by simp
    with assms(2) have "run_end P s a < length s" by simp
    moreover from assms(1,2) have "a \<le> length s" by simp
    ultimately have "\<not> P (s ! run_end P s a)" by (intro run_end_next)
    moreover from lt assms(3) run_end_ge [of a P s] have "P (s ! run_end P s a)" by blast
    ultimately show False by simp
  qed
qed

lemma from_clause_iff: "from_clause s j = Some (ts, te) \<longleftrightarrow> from_at s j ts te"
proof
  assume f: "from_clause s j = Some (ts, te)"
  then have k: "boundary s j \<and> lit_ci ''FROM'' s j \<and> boundary s (j + 4)"
    and ts: "ts = run_end is_space s (j + 4)" and te: "te = run_end is_word s ts"
    and r: "j + 4 < ts" "ts < te"
    by (auto simp: from_clause_def Let_def split: if_splits)
  from k have lit: "lit_ci ''FROM'' s j" by simp
  from lit_ci_length [OF lit] have jl: "j + 4 \<le> length s" by simp
  then have tsl: "ts \<le> length s" unfolding ts by (rule run_end_le_length)
  then have tel: "te \<le> length s" unfolding te by (rule run_end_le_length)
  have sp: "\<forall>q. j + 4 \<le> q \<and> q < ts \<longrightarrow> is_space (s ! q)"
    unfolding ts using run_end_all [of "j + 4" _ is_space s] by blast
  have wd: "\<forall>q. ts \<le> q \<and> q < te \<longrightarrow> is_word (s ! q)"
    unfolding te using run_end_all [of ts _ is_word s] by blast
  have nx: "te < length s \<longrightarrow> \<not> is_word (s ! te)"
    unfolding te using run_end_next [OF tsl, of is_word] by blast
  from k have "keyword_at ''FROM'' s j" by (simp only: from_kw_iff)
  with r tel sp wd nx show "from_at s j ts te" unfolding from_at_def by blast
next
  assume "from_at s j ts te"
  then have kw: "keyword_at ''FROM'' s j" and r: "j + 4 < ts" "ts < te" "te \<le> length s"
    and sp: "\<forall>q. j + 4 \<le> q \<and> q < ts \<longrightarrow> is_space (s ! q)"
    and wd: "\<forall>q. ts \<le> q \<and> q < te \<longrightarrow> is_word (s ! q)"
    and nx: "te < length s \<longrightarrow> \<not> is_word (s ! te)"
    unfolding from_at_def by blast+
  from kw have k: "boundary s j \<and> lit_ci ''FROM'' s j \<and> boundary s (j + 4)"
    by (simp only: from_kw_iff)
  from wd r have "is_word (s ! ts)" by simp
  then have "\<not> is_space (s ! ts)" by (rule is_word_not_space)
  with r sp have e1: "run_end is_space s (j + 4) = ts" by (intro run_end_eq) simp_all
  from r wd nx have e2: "run_end is_word s ts = te" by (intro run_end_eq) simp_all
  from k e1 e2 r show "from_clause s j = Some (ts, te)"
    by (simp add: from_clause_def Let_def)
qed

lemma from_clause_None_iff: "from_clause s j = None \<longleftrightarrow> (\<forall>ts te. \<not> from_at s j ts te)"
proof -
  have "from_clause s j \<noteq> None \<longleftrightarrow> (\<exists>ts te. from_clause s j = Some (ts, te))" by auto
  then show ?thesis by (simp only: from_clause_iff) blast
qed

lemma block_shape:
  assumes "SQL_SELECT_BLOCK_RE s i = Some m"
  shows "m_start m = i \<and> keyword_at ''SELECT'' s i \<and>
         (\<exists>j. i + 7 \<le> j \<and> from_at s j (g_start m) (g_end m) \<and>
              (\<forall>j' ts te. i + 7 \<le> j' \<and> j' < j \<longrightarrow> \<not> from_at s j' ts te)) \<and>
         g_end m \<le> m_end m \<and> m_end m \<le> length s \<and> block_stop s (m_end m) \<and>
         (\<forall>p. g_end m \<le> p \<and> p < m_end m \<longrightarrow> \<not> block_stop s p)"
proof -
  from assms have kw: "select_kw s i"
    by (auto simp: SQL_SELECT_BLOCK_RE_def split: if_splits)
  with assms obtain j ts te p where
    j: "List.find (\<lambda>j. from_clause s j \<noteq> None) [i + 7 ..< length s] = Some j" and
    f: "from_clause s j = Some (ts, te)" and
    p: "List.find (lookahead s) [te ..< Suc (length s)] = Some p" and
    m: "m = \<lparr>m_start = i, m_end = p, g_start = ts, g_end = te\<rparr>"
    by (auto simp: SQL_SELECT_BLOCK_RE_def split: option.splits)
  from find_upt_Some [OF j] have j1: "i + 7 \<le> j"
    and j2: "\<forall>y. i + 7 \<le> y \<and> y < j \<longrightarrow> \<not> from_clause s y \<noteq> None" by simp_all
  from j2 have first: "\<forall>j' ts te. i + 7 \<le> j' \<and> j' < j \<longrightarrow> \<not> from_at s j' ts te"
    using from_clause_None_iff by blast
  from f have fa: "from_at s j ts te" by (simp only: from_clause_iff)
  from find_upt_Some [OF p] have p1: "te \<le> p" "p \<le> length s" "lookahead s p"
    and p2: "\<forall>y. te \<le> y \<and> y < p \<longrightarrow> \<not> lookahead s y" by simp_all
  from p1(3) have st: "block_stop s p" by (simp only: lookahead_iff)
  from p2 have nst: "\<forall>y. te \<le> y \<and> y < p \<longrightarrow> \<not> block_stop s y" by (simp only: lookahead_iff)
  from kw have k: "keyword_at ''SELECT'' s i" by (simp only: select_kw_iff)
  have ex: "\<exists>j. i + 7 \<le> j \<and> from_at s j ts te \<and>
      (\<forall>j' ts te. i + 7 \<le> j' \<and> j' < j \<longrightarrow> \<not> from_at s j' ts te)"
    using j1 fa first by blast
  from k ex p1 st nst show ?thesis by (simp add: m)
qed

lemma block_exists:
  assumes "keyword_at ''SELECT'' s i" "i + 7 \<le> j" "from_at s j ts te"
  shows "\<exists>m. SQL_SELECT_BLOCK_RE s i = Some m"
proof -
  from assms(1) have kw: "select_kw s i" by (simp only: select_kw_iff)
  from assms(3) have f: "from_clause s j = Some (ts, te)" by (simp only: from_clause_iff)
  then have "from_clause s j \<noteq> None" by simp
  moreover from this have "j < length s" using from_clause_bound [of s j] by simp
  ultimately have "List.find (\<lambda>j. from_clause s j \<noteq> None) [i + 7 ..< length s] \<noteq> None"
    using assms(2) by (simp only: find_upt_None) blast
  then obtain j0 where j0: "List.find (\<lambda>j. from_clause s j \<noteq> None) [i + 7 ..< length s] = Some j0"
    by auto
  from find_upt_Some [OF j0] have "from_clause s j0 \<noteq> None" by simp
  then obtain ts0 te0 where f0: "from_clause s j0 = Some (ts0, te0)" by auto
  then have "from_at s j0 ts0 te0" by (simp only: from_clause_iff)
  then have "te0 \<le> length s" by (simp add: from_at_def)
  moreover have "lookahead s (length s)" by (simp add: lookahead_def at_end_def)
  ultimately have "List.find (lookahead s) [te0 ..< Suc (length s)] \<noteq> None"
    by (simp only: find_upt_None) (metis lessI)
  then obtain p where p: "List.find (lookahead s) [te0 ..< Suc (length s)] = Some p" by auto
  from kw j0 f0 p show ?thesis by (simp add: SQL_SELECT_BLOCK_RE_def)
qed

lemma finditer_separate:
  assumes "proper rx s" "m \<in> set (finditer rx s pos)" "m' \<in> set (finditer rx s pos)"
    "m_start m' < m_start m"
  shows "m_end m' \<le> m_start m"
proof -
  let ?l = "finditer rx s pos"
  from finditer_ascending [OF assms(1), of pos] have
    sw: "sorted_wrt (\<lambda>a b. m_end a \<le> m_start b) ?l" and ne: "\<forall>x \<in> set ?l. m_start x < m_end x"
    by (simp_all add: ascending_def)
  from assms(2,3) obtain a b where a: "a < length ?l" "?l ! a = m" and b: "b < length ?l" "?l ! b = m'"
    by (auto simp: in_set_conv_nth)
  consider "b < a" | "a < b" | "a = b" by arith
  then show ?thesis
  proof cases
    case 1
    with sw a b show ?thesis by (auto simp: sorted_wrt_iff_nth_less)
  next
    case 2
    with sw a b have "m_end m \<le> m_start m'" by (auto simp: sorted_wrt_iff_nth_less)
    moreover from ne assms(2) have "m_start m < m_end m" by blast
    ultimately show ?thesis using assms(4) by simp
  next
    case 3
    with a b assms(4) show ?thesis by simp
  qed
qed

lemma finditer_reaches_blocks:
  assumes "proper rx s" "rx s k = Some m" "k \<le> length s"
  shows "pos \<le> k \<Longrightarrow> \<forall>m' \<in> set (finditer rx s pos). m_start m' < k \<longrightarrow> m_end m' \<le> k \<Longrightarrow>
         m \<in> set (finditer rx s pos)"
  using assms
proof (induction rx s pos rule: finditer.induct)
  case (1 rx s pos)
  from "1.prems"(1,5) have nl: "\<not> length s < pos" by simp
  show ?case
  proof (cases "pos = k")
    case True
    with "1.prems" nl show ?thesis by (simp add: finditer.simps [of rx s k])
  next
    case False
    with "1.prems"(1) have lt: "pos < k" by simp
    show ?thesis
    proof (cases "rx s pos")
      case None
      from lt have le: "Suc pos \<le> k" by simp
      from nl None have eq: "finditer rx s pos = finditer rx s (Suc pos)"
        by (simp add: finditer.simps [of rx s pos])
      from "1.prems"(2) have "\<forall>m' \<in> set (finditer rx s (Suc pos)). m_start m' < k \<longrightarrow> m_end m' \<le> k"
        by (simp only: eq)
      from "1.IH"(1) [OF nl None le this "1.prems"(3-5)] show ?thesis by (simp only: eq)
    next
      case (Some m')
      with "1.prems"(3) have p: "m_start m' = pos" "pos < m_end m'" by (auto simp: proper_def)
      from nl Some p have eq: "finditer rx s pos = m' # finditer rx s (m_end m')"
        by (simp add: finditer.simps [of rx s pos])
      from "1.prems"(2) p lt have "m_end m' \<le> k" by (simp add: eq)
      with p have le: "(if pos < m_end m' then m_end m' else Suc pos) \<le> k" by simp
      from "1.prems"(2) p have "\<forall>x \<in> set (finditer rx s (if pos < m_end m' then m_end m' else Suc pos)).
          m_start x < k \<longrightarrow> m_end x \<le> k" by (simp add: eq)
      from "1.IH"(2) [OF nl Some le this "1.prems"(3-5)] p show ?thesis by (simp add: eq)
    qed
  qed
qed

lemma block_starts:
  "(\<exists>m \<in> set (finditer SQL_SELECT_BLOCK_RE src 0). m_start m = i) \<longleftrightarrow>
     keyword_at ''SELECT'' src i \<and> (\<exists>j ts te. i + 7 \<le> j \<and> from_at src j ts te) \<and>
     (\<forall>m' \<in> set (finditer SQL_SELECT_BLOCK_RE src 0). m_start m' < i \<longrightarrow> m_end m' \<le> i)"
proof
  assume "\<exists>m \<in> set (finditer SQL_SELECT_BLOCK_RE src 0). m_start m = i"
  then obtain m where m: "m \<in> set (finditer SQL_SELECT_BLOCK_RE src 0)" "m_start m = i" by blast
  from finditer_member [OF SQL_SELECT_BLOCK_RE_proper m(1)] m(2)
  have "SQL_SELECT_BLOCK_RE src i = Some m" by simp
  from block_shape [OF this] have "keyword_at ''SELECT'' src i"
    "\<exists>j ts te. i + 7 \<le> j \<and> from_at src j ts te" by blast+
  moreover have "\<forall>m' \<in> set (finditer SQL_SELECT_BLOCK_RE src 0). m_start m' < i \<longrightarrow> m_end m' \<le> i"
    using finditer_separate [OF SQL_SELECT_BLOCK_RE_proper m(1)] m(2) by blast
  ultimately show "keyword_at ''SELECT'' src i \<and> (\<exists>j ts te. i + 7 \<le> j \<and> from_at src j ts te) \<and>
     (\<forall>m' \<in> set (finditer SQL_SELECT_BLOCK_RE src 0). m_start m' < i \<longrightarrow> m_end m' \<le> i)" by blast
next
  assume a: "keyword_at ''SELECT'' src i \<and> (\<exists>j ts te. i + 7 \<le> j \<and> from_at src j ts te) \<and>
     (\<forall>m' \<in> set (finditer SQL_SELECT_BLOCK_RE src 0). m_start m' < i \<longrightarrow> m_end m' \<le> i)"
  then obtain j ts te where f: "i + 7 \<le> j" "from_at src j ts te" by blast
  from a block_exists [OF _ f] obtain m where m: "SQL_SELECT_BLOCK_RE src i = Some m" by blast
  from f(2) have "te \<le> length src" "j + 4 < ts" "ts < te" by (simp_all add: from_at_def)
  with f(1) have il: "i \<le> length src" by simp
  from a have r: "\<forall>m' \<in> set (finditer SQL_SELECT_BLOCK_RE src 0). m_start m' < i \<longrightarrow> m_end m' \<le> i"
    by blast
  from finditer_reaches_blocks [OF SQL_SELECT_BLOCK_RE_proper m il _ r]
  have "m \<in> set (finditer SQL_SELECT_BLOCK_RE src 0)" by simp
  moreover from block_shape [OF m] have "m_start m = i" by simp
  ultimately show "\<exists>m \<in> set (finditer SQL_SELECT_BLOCK_RE src 0). m_start m = i" by blast
qed

lemma block_extent:
  assumes "m \<in> set (finditer SQL_SELECT_BLOCK_RE src 0)"
  shows "keyword_at ''SELECT'' src (m_start m) \<and>
         (\<exists>j. m_start m + 7 \<le> j \<and> from_at src j (g_start m) (g_end m) \<and>
              (\<forall>j' ts te. m_start m + 7 \<le> j' \<and> j' < j \<longrightarrow> \<not> from_at src j' ts te)) \<and>
         g_end m \<le> m_end m \<and> m_end m \<le> length src \<and> block_stop src (m_end m) \<and>
         (\<forall>p. g_end m \<le> p \<and> p < m_end m \<longrightarrow> \<not> block_stop src p)"
proof -
  from finditer_member [OF SQL_SELECT_BLOCK_RE_proper assms]
  have "SQL_SELECT_BLOCK_RE src (m_start m) = Some m" by simp
  from block_shape [OF this] show ?thesis by simp
qed

lemma block_swallows:
  assumes k: "keyword_at ''SELECT'' src i"
    and r: "\<forall>m' \<in> set (finditer SQL_SELECT_BLOCK_RE src 0). m_start m' < i \<longrightarrow> m_end m' \<le> i"
    and lt: "i < i'"
    and n: "\<forall>j ts te. i + 7 \<le> j \<and> j \<le> i' \<longrightarrow> \<not> from_at src j ts te"
    and f: "\<exists>j ts te. i + 7 \<le> j \<and> from_at src j ts te"
  shows "(\<exists>m \<in> set (finditer SQL_SELECT_BLOCK_RE src 0). m_start m = i \<and> i' < m_end m) \<and>
         \<not> (\<exists>m \<in> set (finditer SQL_SELECT_BLOCK_RE src 0). m_start m = i')"
proof -
  from k f r have "\<exists>m \<in> set (finditer SQL_SELECT_BLOCK_RE src 0). m_start m = i"
    by (simp only: block_starts)
  then obtain m where m: "m \<in> set (finditer SQL_SELECT_BLOCK_RE src 0)" "m_start m = i" by blast
  from block_extent [OF m(1)] m(2) obtain j where
    j: "i + 7 \<le> j" "from_at src j (g_start m) (g_end m)" and e: "g_end m \<le> m_end m" by blast
  from j n have "i' < j" by (meson not_le)
  moreover from j(2) have "j + 4 < g_start m" "g_start m < g_end m" by (simp_all add: from_at_def)
  ultimately have cover: "i' < m_end m" using e by simp
  have "\<not> (\<exists>m2 \<in> set (finditer SQL_SELECT_BLOCK_RE src 0). m_start m2 = i')"
  proof
    assume "\<exists>m2 \<in> set (finditer SQL_SELECT_BLOCK_RE src 0). m_start m2 = i'"
    then obtain m2 where m2: "m2 \<in> set (finditer SQL_SELECT_BLOCK_RE src 0)" "m_start m2 = i'" by blast
    from finditer_separate [OF SQL_SELECT_BLOCK_RE_proper m2(1) m(1)] m(2) m2(2) lt
    have "m_end m \<le> i'" by simp
    with cover show False by simp
  qed
  with m cover show ?thesis by blast
qed

lemma no_from_at_no_hits:
  assumes "\<forall>j ts te. \<not> from_at src j ts te"
  shows "scan_sql src = Inr []"
proof -
  from assms have "\<forall>j. from_clause src j = None" by (simp only: from_clause_None_iff) blast
  then show ?thesis by (rule no_from_no_hits)
qed

lemma prefixed_select:
  "select_kw ''x. SELECT a FROM VBUK.'' 3 \<and>
   from_clause ''x. SELECT a FROM VBUK.'' 12 = Some (17, 21) \<and>
   finditer SQL_SELECT_BLOCK_RE ''x. SELECT a FROM VBUK.'' 0 =
     [\<lparr>m_start = 3, m_end = 22, g_start = 17, g_end = 21\<rparr>]"
  by code_simp

lemma nested_select_clauses:
  "select_kw ''SELECT a. SELECT b FROM VBUK.'' 0 \<and>
   select_kw ''SELECT a. SELECT b FROM VBUK.'' 10 \<and>
   from_clause ''SELECT a. SELECT b FROM VBUK.'' 19 = Some (24, 28) \<and>
   (\<forall>j \<in> set [7 ..< 11]. from_clause ''SELECT a. SELECT b FROM VBUK.'' j = None)"
  by code_simp

lemma concat_map_if:
  "concat (map (\<lambda>m. if Q m then [g m] else []) ms) = map g (filter Q ms)"
  by (induction ms) simp_all

lemma block_text: "group0 src m = take (m_end m - m_start m) (drop (m_start m) src)"
  by (simp add: group0_def slice_def)

lemma block_field_hits:
  "filter (\<lambda>h. h_target_type h = SQL_FIELD) (block_hits src m) =
     (if token_occurs ''VBTYP_EXT'' (take (m_end m - m_start m) (drop (m_start m) src))
      then [sql_field_hit (m_start m, m_end m)] else [])"
proof -
  have "filter (\<lambda>h. h_target_type h = SQL_FIELD) (block_hits src m) = field_hits src m"
    by (simp add: block_hits_def table_hits_no_field join_hits_no_field field_hits_all_field)
  then show ?thesis by (simp add: field_hits_def search_vbtyp_ext_iff block_text)
qed

lemma sql_field_hits:
  "filter (\<lambda>h. h_target_type h = SQL_FIELD) (concat (map (block_hits src) ms)) =
     map (\<lambda>m. sql_field_hit (m_start m, m_end m))
       (filter (\<lambda>m. token_occurs ''VBTYP_EXT'' (take (m_end m - m_start m) (drop (m_start m) src))) ms)"
proof -
  have "filter (\<lambda>h. h_target_type h = SQL_FIELD) (concat (map (block_hits src) ms)) =
      concat (map (\<lambda>m. filter (\<lambda>h. h_target_type h = SQL_FIELD) (block_hits src m)) ms)"
    by (simp add: filter_concat comp_def)
  then show ?thesis by (simp only: block_field_hits concat_map_if)
qed

lemma ascending_distinct: "ascending ms \<Longrightarrow> distinct (map (\<lambda>m. (m_start m, m_end m)) ms)"
proof (induction ms)
  case Nil
  show ?case by simp
next
  case (Cons m ms)
  from Cons.prems have a: "ascending ms" and lt: "m_start m < m_end m"
    and le: "\<forall>x \<in> set ms. m_end m \<le> m_start x"
    by (simp_all add: ascending_def)
  from lt le have "\<forall>x \<in> set ms. m_start x \<noteq> m_start m" by fastforce
  then have "(m_start m, m_end m) \<notin> (\<lambda>m. (m_start m, m_end m)) ` set ms" by auto
  with Cons.IH [OF a] show ?case by simp
qed

lemma two_blocks_one_token:
  "finditer SQL_SELECT_BLOCK_RE ''SELECT a FROM t SELECT vbtyp_ext FROM u'' 0 =
     [\<lparr>m_start = 0, m_end = 16, g_start = 14, g_end = 15\<rparr>,
      \<lparr>m_start = 16, m_end = 39, g_start = 38, g_end = 39\<rparr>] \<and>
   \<not> search_vbtyp_ext ''SELECT a FROM t '' \<and>
   search_vbtyp_ext ''SELECT vbtyp_ext FROM u'' \<and>
   finditer SQL_SELECT_BLOCK_RE ''SELECT vbtyp_ext, VBTYP_EXT, Vbtyp_Ext FROM t'' 0 =
     [\<lparr>m_start = 0, m_end = 45, g_start = 44, g_end = 45\<rparr>] \<and>
   search_vbtyp_ext ''SELECT vbtyp_ext, VBTYP_EXT, Vbtyp_Ext FROM t''"
  by code_simp


section \<open>The properties of the specification\<close>

text \<open>
  \<^bold>\<open>C1\<close> (catalog completeness). For every key \<open>t\<close> of the table catalog, with replacement
  \<open>r\<close>, a unit whose source text is exactly \<^verbatim>\<open>SELECT * FROM t\<close> gets exactly one finding: its
  kind is TABLE, its target name is \<open>t\<close>, its field is absent and its suggestion is \<open>[r]\<close>.
\<close>

theorem catalog_completeness:
  assumes "SQL_TABLES t = Some r" and "code u = Some (''SELECT * FROM '' @ t)"
  shows "\<exists>res f. assess [u] = Inr [res] \<and> selects res = [f] \<and> target_type f = TABLE \<and>
           target_name f = t \<and> field f = None \<and> suggested_fields f = Some [r]"
proof -
  from assms(1) consider "t = ''VBUK''" "r = ''VBAK''" | "t = ''VBUP''" "r = ''VBAP''"
    by (auto simp: SQL_TABLES_Some)
  then show ?thesis
  proof cases
    case 1
    with assms(2) have "unit_src u = ''SELECT * FROM VBUK''" by (simp add: unit_src_def)
    with 1 show ?thesis by (simp add: assess_single select_star_VBUK result_of_def)
  next
    case 2
    with assms(2) have "unit_src u = ''SELECT * FROM VBUP''" by (simp add: unit_src_def)
    with 2 show ?thesis by (simp add: assess_single select_star_VBUP result_of_def)
  qed
qed

theorem catalog_completeness_witness:
  "SQL_TABLES ''VBUP'' = Some ''VBAP'' \<and>
   (\<exists>res f. assess [\<lparr>pgm_name = ''P1'', inc_name = ''I1'', type = ''FORM'', name = None,
                       code = Some ''SELECT * FROM VBUP''\<rparr>] = Inr [res] \<and>
      selects res = [f] \<and> target_type f = TABLE \<and> target_name f = ''VBUP'' \<and> field f = None \<and>
      suggested_fields f = Some [''VBAP''])"
proof -
  have k: "SQL_TABLES ''VBUP'' = Some ''VBAP''" by (simp add: SQL_TABLES_def)
  show ?thesis
    using k catalog_completeness [OF k, of "\<lparr>pgm_name = ''P1'', inc_name = ''I1'', type = ''FORM'',
      name = None, code = Some ''SELECT * FROM VBUP''\<rparr>"] by simp
qed

text \<open>
  \<^bold>\<open>C2\<close> (span of a JOIN hit). The property asks for offsets into the unit's text, and the
  finding's own keys are called \<^verbatim>\<open>start_char_in_unit\<close> and \<^verbatim>\<open>end_char_in_unit\<close>. The scanner
  appends \<^verbatim>\<open>jm.span()\<close>, which counts from the start of \<^verbatim>\<open>rest_text\<close>. On
  \<^verbatim>\<open>SELECT a FROM x JOIN VBUK ON 1\<close> the JOIN clause stands at offsets 16 to 25 of the unit; the
  finding reports 1 to 10, where the unit's text reads \<^verbatim>\<open>ELECT a F\<close>.
\<close>

theorem join_span_counts_from_rest:
  "unit_findings ''SELECT a FROM x JOIN VBUK ON 1'' =
     Inr [\<lparr>table = Some ''VBUK'', field = None, target_type = TABLE, target_name = ''VBUK'',
           start_char_in_unit = 1, end_char_in_unit = 10, used_fields = [''VBUK''],
           ambiguous = False, suggested_fields = Some [''VBAK''],
           suggested_statement =
             ''* TODO: Table VBUK obsolete in S/4HANA (Note 2198647). Replace with VBAK.''\<rparr>] \<and>
   slice ''SELECT a FROM x JOIN VBUK ON 1'' 1 10 = ''ELECT a F'' \<and>
   slice ''SELECT a FROM x JOIN VBUK ON 1'' 16 25 = ''JOIN VBUK''"
  by code_simp

text \<open>
  \<^bold>\<open>C3\<close>, as stated, fails on its own example. In \<^verbatim>\<open>SELECT a. SELECT b FROM VBUK.\<close> the
  second SELECT keyword stands at offset 10, but the lazy projection group \<^verbatim>\<open>.+?\<close> runs over
  it (under \<^verbatim>\<open>re.DOTALL\<close> it matches any character) up to the first FROM clause: the only block
  starts at offset 0, at the first SELECT, and is the whole text.
\<close>

theorem second_select_is_swallowed:
  "select_kw ''SELECT a. SELECT b FROM VBUK.'' 10 \<and>
   map m_start (finditer SQL_SELECT_BLOCK_RE ''SELECT a. SELECT b FROM VBUK.'' 0) = [0] \<and>
   map m_start (finditer SQL_SELECT_BLOCK_RE ''SELECT a. SELECT b FROM VBUK.'' 0) \<noteq> [10] \<and>
   group0 ''SELECT a. SELECT b FROM VBUK.''
     (hd (finditer SQL_SELECT_BLOCK_RE ''SELECT a. SELECT b FROM VBUK.'' 0)) =
     ''SELECT a. SELECT b FROM VBUK.''"
proof -
  have "select_kw ''SELECT a. SELECT b FROM VBUK.'' 10" by code_simp
  moreover have "group0 ''SELECT a. SELECT b FROM VBUK.''
      \<lparr>m_start = 0, m_end = 29, g_start = 24, g_end = 28\<rparr> = ''SELECT a. SELECT b FROM VBUK.''"
    by code_simp
  ultimately show ?thesis by (simp add: nested_select_blocks)
qed

text \<open>
  \<^bold>\<open>C3\<close>, amended. The statement is in terms of three notions that are defined on the text
  alone: a keyword at an offset, a FROM clause at an offset with the span of its table, and
  an offset where a block may stop (before a SELECT keyword, at the end of the text, or
  before a final newline). For every source text:
  \<^item> the blocks are in ascending order, non-empty, and never overlap;
  \<^item> every block starts at a SELECT keyword; its table is the table of the first FROM clause
    at seven or more characters after its start; it ends at the first stop at or after the
    end of that table;
  \<^item> a block starts at an offset exactly when a SELECT keyword stands there, a FROM clause
    matches at seven or more characters after it, and no earlier block reaches beyond it;
  \<^item> a SELECT with no FROM clause of its own up to a later offset is not skipped when a FROM
    clause follows further on: the block starts at that SELECT, runs beyond the later
    offset, and no block starts at the later offset;
  \<^item> a text in which no FROM clause matches yields no hits and no error;
  \<^item> \<^verbatim>\<open>SELECT a. SELECT b FROM VBUK.\<close> yields the single block from offset 0 to offset 29.
\<close>

theorem select_blocks:
  "ascending (finditer SQL_SELECT_BLOCK_RE src 0) \<and>
   (\<forall>m \<in> set (finditer SQL_SELECT_BLOCK_RE src 0).
      keyword_at ''SELECT'' src (m_start m) \<and>
      (\<exists>j. m_start m + 7 \<le> j \<and> from_at src j (g_start m) (g_end m) \<and>
           (\<forall>j' ts te. m_start m + 7 \<le> j' \<and> j' < j \<longrightarrow> \<not> from_at src j' ts te)) \<and>
      g_end m \<le> m_end m \<and> m_end m \<le> length src \<and> block_stop src (m_end m) \<and>
      (\<forall>p. g_end m \<le> p \<and> p < m_end m \<longrightarrow> \<not> block_stop src p)) \<and>
   (\<forall>i. (\<exists>m \<in> set (finditer SQL_SELECT_BLOCK_RE src 0). m_start m = i) \<longleftrightarrow>
      keyword_at ''SELECT'' src i \<and> (\<exists>j ts te. i + 7 \<le> j \<and> from_at src j ts te) \<and>
      (\<forall>m' \<in> set (finditer SQL_SELECT_BLOCK_RE src 0). m_start m' < i \<longrightarrow> m_end m' \<le> i)) \<and>
   (\<forall>i i'.
      keyword_at ''SELECT'' src i \<and>
      (\<forall>m' \<in> set (finditer SQL_SELECT_BLOCK_RE src 0). m_start m' < i \<longrightarrow> m_end m' \<le> i) \<and>
      i < i' \<and> (\<forall>j ts te. i + 7 \<le> j \<and> j \<le> i' \<longrightarrow> \<not> from_at src j ts te) \<and>
      (\<exists>j ts te. i + 7 \<le> j \<and> from_at src j ts te) \<longrightarrow>
      (\<exists>m \<in> set (finditer SQL_SELECT_BLOCK_RE src 0). m_start m = i \<and> i' < m_end m) \<and>
      \<not> (\<exists>m \<in> set (finditer SQL_SELECT_BLOCK_RE src 0). m_start m = i')) \<and>
   ((\<forall>j ts te. \<not> from_at src j ts te) \<longrightarrow> scan_sql src = Inr []) \<and>
   map (\<lambda>m. (m_start m, m_end m)) (finditer SQL_SELECT_BLOCK_RE ''SELECT a. SELECT b FROM VBUK.'' 0) =
     [(0, 29)]"
proof (intro conjI)
  show "ascending (finditer SQL_SELECT_BLOCK_RE src 0)"
    by (rule finditer_ascending [OF SQL_SELECT_BLOCK_RE_proper])
  show "\<forall>m \<in> set (finditer SQL_SELECT_BLOCK_RE src 0).
      keyword_at ''SELECT'' src (m_start m) \<and>
      (\<exists>j. m_start m + 7 \<le> j \<and> from_at src j (g_start m) (g_end m) \<and>
           (\<forall>j' ts te. m_start m + 7 \<le> j' \<and> j' < j \<longrightarrow> \<not> from_at src j' ts te)) \<and>
      g_end m \<le> m_end m \<and> m_end m \<le> length src \<and> block_stop src (m_end m) \<and>
      (\<forall>p. g_end m \<le> p \<and> p < m_end m \<longrightarrow> \<not> block_stop src p)"
    by (intro ballI) (rule block_extent)
  show "\<forall>i. (\<exists>m \<in> set (finditer SQL_SELECT_BLOCK_RE src 0). m_start m = i) \<longleftrightarrow>
      keyword_at ''SELECT'' src i \<and> (\<exists>j ts te. i + 7 \<le> j \<and> from_at src j ts te) \<and>
      (\<forall>m' \<in> set (finditer SQL_SELECT_BLOCK_RE src 0). m_start m' < i \<longrightarrow> m_end m' \<le> i)"
    by (intro allI) (rule block_starts)
  show "\<forall>i i'.
      keyword_at ''SELECT'' src i \<and>
      (\<forall>m' \<in> set (finditer SQL_SELECT_BLOCK_RE src 0). m_start m' < i \<longrightarrow> m_end m' \<le> i) \<and>
      i < i' \<and> (\<forall>j ts te. i + 7 \<le> j \<and> j \<le> i' \<longrightarrow> \<not> from_at src j ts te) \<and>
      (\<exists>j ts te. i + 7 \<le> j \<and> from_at src j ts te) \<longrightarrow>
      (\<exists>m \<in> set (finditer SQL_SELECT_BLOCK_RE src 0). m_start m = i \<and> i' < m_end m) \<and>
      \<not> (\<exists>m \<in> set (finditer SQL_SELECT_BLOCK_RE src 0). m_start m = i')"
  proof (intro allI impI)
    fix i i'
    assume a: "keyword_at ''SELECT'' src i \<and>
      (\<forall>m' \<in> set (finditer SQL_SELECT_BLOCK_RE src 0). m_start m' < i \<longrightarrow> m_end m' \<le> i) \<and>
      i < i' \<and> (\<forall>j ts te. i + 7 \<le> j \<and> j \<le> i' \<longrightarrow> \<not> from_at src j ts te) \<and>
      (\<exists>j ts te. i + 7 \<le> j \<and> from_at src j ts te)"
    show "(\<exists>m \<in> set (finditer SQL_SELECT_BLOCK_RE src 0). m_start m = i \<and> i' < m_end m) \<and>
      \<not> (\<exists>m \<in> set (finditer SQL_SELECT_BLOCK_RE src 0). m_start m = i')"
      by (rule block_swallows) (use a in blast)+
  qed
  show "(\<forall>j ts te. \<not> from_at src j ts te) \<longrightarrow> scan_sql src = Inr []"
    by (intro impI) (rule no_from_at_no_hits)
  show "map (\<lambda>m. (m_start m, m_end m))
      (finditer SQL_SELECT_BLOCK_RE ''SELECT a. SELECT b FROM VBUK.'' 0) = [(0, 29)]"
    by (simp add: nested_select_blocks)
qed

theorem select_blocks_witness:
  "keyword_at ''SELECT'' ''SELECT a. SELECT b FROM VBUK.'' 0 \<and>
   from_at ''SELECT a. SELECT b FROM VBUK.'' 19 24 28 \<and>
   (\<exists>m \<in> set (finditer SQL_SELECT_BLOCK_RE ''SELECT a. SELECT b FROM VBUK.'' 0).
      m_start m = 0 \<and> 10 < m_end m) \<and>
   \<not> (\<exists>m \<in> set (finditer SQL_SELECT_BLOCK_RE ''SELECT a. SELECT b FROM VBUK.'' 0). m_start m = 10) \<and>
   keyword_at ''SELECT'' ''x. SELECT a FROM VBUK.'' 3 \<and>
   from_at ''x. SELECT a FROM VBUK.'' 12 17 21 \<and>
   (\<exists>m \<in> set (finditer SQL_SELECT_BLOCK_RE ''x. SELECT a FROM VBUK.'' 0). m_start m = 3) \<and>
   scan_sql ''SELECT a. SELECT b'' = Inr []"
proof -
  let ?w = "''SELECT a. SELECT b FROM VBUK.''"
  let ?x = "''x. SELECT a FROM VBUK.''"
  let ?n = "''SELECT a. SELECT b''"
  have k0: "keyword_at ''SELECT'' ?w 0"
    using nested_select_clauses by (simp only: select_kw_iff)
  have f19: "from_at ?w 19 24 28"
    using nested_select_clauses by (simp only: from_clause_iff)
  have none: "\<forall>j ts te. 0 + 7 \<le> j \<and> j \<le> 10 \<longrightarrow> \<not> from_at ?w j ts te"
  proof (intro allI impI)
    fix j ts te
    assume "0 + 7 \<le> j \<and> j \<le> (10 :: nat)"
    then have "7 \<le> j \<and> j < 11" by arith
    then have "j \<in> set [7 ..< 11]" by (simp only: set_upt atLeastLessThan_iff)
    with nested_select_clauses have "from_clause ?w j = None" by blast
    then show "\<not> from_at ?w j ts te" by (simp only: from_clause_None_iff) blast
  qed
  have ex: "\<exists>j ts te. 0 + 7 \<le> j \<and> from_at ?w j ts te"
    using f19 by (intro exI [of _ 19] exI [of _ 24] exI [of _ 28]) simp
  have reach: "\<forall>m' \<in> set (finditer SQL_SELECT_BLOCK_RE ?w 0). m_start m' < 0 \<longrightarrow> m_end m' \<le> 0"
    by simp
  from select_blocks [of ?w] have "\<forall>i i'.
      keyword_at ''SELECT'' ?w i \<and>
      (\<forall>m' \<in> set (finditer SQL_SELECT_BLOCK_RE ?w 0). m_start m' < i \<longrightarrow> m_end m' \<le> i) \<and>
      i < i' \<and> (\<forall>j ts te. i + 7 \<le> j \<and> j \<le> i' \<longrightarrow> \<not> from_at ?w j ts te) \<and>
      (\<exists>j ts te. i + 7 \<le> j \<and> from_at ?w j ts te) \<longrightarrow>
      (\<exists>m \<in> set (finditer SQL_SELECT_BLOCK_RE ?w 0). m_start m = i \<and> i' < m_end m) \<and>
      \<not> (\<exists>m \<in> set (finditer SQL_SELECT_BLOCK_RE ?w 0). m_start m = i')"
    by (elim conjE)
  from this [rule_format, of 0 10] k0 reach none ex
  have sw: "(\<exists>m \<in> set (finditer SQL_SELECT_BLOCK_RE ?w 0). m_start m = 0 \<and> 10 < m_end m) \<and>
      \<not> (\<exists>m \<in> set (finditer SQL_SELECT_BLOCK_RE ?w 0). m_start m = 10)"
    by (simp only: zero_less_numeral simp_thms)
  have k3: "keyword_at ''SELECT'' ?x 3"
    using prefixed_select by (simp only: select_kw_iff)
  have f12: "from_at ?x 12 17 21"
    using prefixed_select by (simp only: from_clause_iff)
  have ex3: "\<exists>j ts te. 3 + 7 \<le> j \<and> from_at ?x j ts te"
    using f12 by (intro exI [of _ 12] exI [of _ 17] exI [of _ 21]) simp
  have reach3: "\<forall>m' \<in> set (finditer SQL_SELECT_BLOCK_RE ?x 0). m_start m' < 3 \<longrightarrow> m_end m' \<le> 3"
    using prefixed_select by simp
  from select_blocks [of ?x] have "\<forall>i. (\<exists>m \<in> set (finditer SQL_SELECT_BLOCK_RE ?x 0). m_start m = i) \<longleftrightarrow>
      keyword_at ''SELECT'' ?x i \<and> (\<exists>j ts te. i + 7 \<le> j \<and> from_at ?x j ts te) \<and>
      (\<forall>m' \<in> set (finditer SQL_SELECT_BLOCK_RE ?x 0). m_start m' < i \<longrightarrow> m_end m' \<le> i)"
    by (elim conjE)
  from this [rule_format, of 3] k3 ex3 reach3
  have st: "\<exists>m \<in> set (finditer SQL_SELECT_BLOCK_RE ?x 0). m_start m = 3" by (simp only: simp_thms)
  have "\<forall>j ts te. \<not> from_at ?n j ts te"
  proof (intro allI)
    fix j ts te
    from no_from_example have "from_clause ?n j = None" by (rule spec)
    then have "\<forall>ts te. \<not> from_at ?n j ts te" by (rule from_clause_None_iff [THEN iffD1])
    then show "\<not> from_at ?n j ts te" by simp
  qed
  moreover from select_blocks [of ?n] have
    "(\<forall>j ts te. \<not> from_at ?n j ts te) \<longrightarrow> scan_sql ?n = Inr []" by (elim conjE)
  ultimately have nh: "scan_sql ?n = Inr []" by (rule rev_mp)
  from k0 f19 sw k3 f12 st nh show ?thesis by (intro conjI) (elim conjE, assumption)+
qed

text \<open>
  \<^bold>\<open>C4\<close> (one SQL-field hit per block). For every source text the scanner returns, and the
  hits of kind SQL_FIELD in its result are, in the order of the blocks, exactly one for each
  block in whose text the token VBTYP_EXT occurs (in any mix of cases, with no word
  character right before or right after it), however often it occurs, and none for any other
  block. The text of a block is the source text from the block's start to its end. The hit
  of a block has that block's span, VBTYP_EXT as its field and its target name, and no
  suggestion. No two blocks have the same span, so a hit belongs to one block.
\<close>

theorem one_sql_field_hit_per_block:
  "\<exists>hits. scan_sql src = Inr hits \<and>
     filter (\<lambda>h. h_target_type h = SQL_FIELD) hits =
       map (\<lambda>m. \<lparr>h_target_type = SQL_FIELD, h_target_name = ''VBTYP_EXT'',
                  h_field = Some ''VBTYP_EXT'', h_span = (m_start m, m_end m),
                  h_used_fields = [''VBTYP_EXT''], h_suggested_fields = None,
                  h_suggested_statement =
                    ''* TODO: Field VBTYP_EXT obsolete (Note 2198647). Remove usage.''\<rparr>)
         (filter (\<lambda>m. token_occurs ''VBTYP_EXT''
                         (take (m_end m - m_start m) (drop (m_start m) src)))
                 (finditer SQL_SELECT_BLOCK_RE src 0)) \<and>
     distinct (map (\<lambda>m. (m_start m, m_end m)) (finditer SQL_SELECT_BLOCK_RE src 0))"
proof -
  have h: "(\<lambda>m. \<lparr>h_target_type = SQL_FIELD, h_target_name = ''VBTYP_EXT'',
                  h_field = Some ''VBTYP_EXT'', h_span = (m_start m, m_end m),
                  h_used_fields = [''VBTYP_EXT''], h_suggested_fields = None,
                  h_suggested_statement =
                    ''* TODO: Field VBTYP_EXT obsolete (Note 2198647). Remove usage.''\<rparr>) =
      (\<lambda>m. sql_field_hit (m_start m, m_end m))"
    by (simp add: sql_field_hit_def comment_sql_field_def)
  have d: "distinct (map (\<lambda>m. (m_start m, m_end m)) (finditer SQL_SELECT_BLOCK_RE src 0))"
    by (rule ascending_distinct) (rule finditer_ascending [OF SQL_SELECT_BLOCK_RE_proper])
  show ?thesis
    by (simp only: h scan_sql_eq sum.inject ex_simps simp_thms sql_field_hits d)
qed

theorem one_sql_field_hit_per_block_witness:
  "\<not> token_occurs ''VBTYP_EXT'' ''SELECT a FROM t '' \<and>
   token_occurs ''VBTYP_EXT'' ''SELECT vbtyp_ext FROM u'' \<and>
   (\<exists>hits. scan_sql ''SELECT a FROM t SELECT vbtyp_ext FROM u'' = Inr hits \<and>
      filter (\<lambda>h. h_target_type h = SQL_FIELD) hits =
        [\<lparr>h_target_type = SQL_FIELD, h_target_name = ''VBTYP_EXT'', h_field = Some ''VBTYP_EXT'',
          h_span = (16, 39), h_used_fields = [''VBTYP_EXT''], h_suggested_fields = None,
          h_suggested_statement =
            ''* TODO: Field VBTYP_EXT obsolete (Note 2198647). Remove usage.''\<rparr>]) \<and>
   token_occurs ''VBTYP_EXT'' ''SELECT vbtyp_ext, VBTYP_EXT, Vbtyp_Ext FROM t'' \<and>
   (\<exists>hits. scan_sql ''SELECT vbtyp_ext, VBTYP_EXT, Vbtyp_Ext FROM t'' = Inr hits \<and>
      filter (\<lambda>h. h_target_type h = SQL_FIELD) hits =
        [\<lparr>h_target_type = SQL_FIELD, h_target_name = ''VBTYP_EXT'', h_field = Some ''VBTYP_EXT'',
          h_span = (0, 45), h_used_fields = [''VBTYP_EXT''], h_suggested_fields = None,
          h_suggested_statement =
            ''* TODO: Field VBTYP_EXT obsolete (Note 2198647). Remove usage.''\<rparr>])"
proof -
  from two_blocks_one_token have s1: "\<not> search_vbtyp_ext ''SELECT a FROM t ''"
    and s2: "search_vbtyp_ext ''SELECT vbtyp_ext FROM u''"
    and s3: "search_vbtyp_ext ''SELECT vbtyp_ext, VBTYP_EXT, Vbtyp_Ext FROM t''"
    by simp_all
  from s1 have t1: "\<not> token_occurs ''VBTYP_EXT'' ''SELECT a FROM t ''"
    by (simp only: search_vbtyp_ext_iff simp_thms)
  from s2 have t2: "token_occurs ''VBTYP_EXT'' ''SELECT vbtyp_ext FROM u''"
    by (simp only: search_vbtyp_ext_iff simp_thms)
  from s3 have t3: "token_occurs ''VBTYP_EXT'' ''SELECT vbtyp_ext, VBTYP_EXT, Vbtyp_Ext FROM t''"
    by (simp only: search_vbtyp_ext_iff simp_thms)
  have b1: "finditer SQL_SELECT_BLOCK_RE ''SELECT a FROM t SELECT vbtyp_ext FROM u'' 0 =
     [\<lparr>m_start = 0, m_end = 16, g_start = 14, g_end = 15\<rparr>,
      \<lparr>m_start = 16, m_end = 39, g_start = 38, g_end = 39\<rparr>]"
    and b2: "finditer SQL_SELECT_BLOCK_RE ''SELECT vbtyp_ext, VBTYP_EXT, Vbtyp_Ext FROM t'' 0 =
     [\<lparr>m_start = 0, m_end = 45, g_start = 44, g_end = 45\<rparr>]"
    using two_blocks_one_token by simp_all
  have e1: "\<exists>hits. scan_sql ''SELECT a FROM t SELECT vbtyp_ext FROM u'' = Inr hits \<and>
      filter (\<lambda>h. h_target_type h = SQL_FIELD) hits =
        [\<lparr>h_target_type = SQL_FIELD, h_target_name = ''VBTYP_EXT'', h_field = Some ''VBTYP_EXT'',
          h_span = (16, 39), h_used_fields = [''VBTYP_EXT''], h_suggested_fields = None,
          h_suggested_statement =
            ''* TODO: Field VBTYP_EXT obsolete (Note 2198647). Remove usage.''\<rparr>]"
    using one_sql_field_hit_per_block [of "''SELECT a FROM t SELECT vbtyp_ext FROM u''"] t1 t2
    by (simp add: b1)
  have e2: "\<exists>hits. scan_sql ''SELECT vbtyp_ext, VBTYP_EXT, Vbtyp_Ext FROM t'' = Inr hits \<and>
      filter (\<lambda>h. h_target_type h = SQL_FIELD) hits =
        [\<lparr>h_target_type = SQL_FIELD, h_target_name = ''VBTYP_EXT'', h_field = Some ''VBTYP_EXT'',
          h_span = (0, 45), h_used_fields = [''VBTYP_EXT''], h_suggested_fields = None,
          h_suggested_statement =
            ''* TODO: Field VBTYP_EXT obsolete (Note 2198647). Remove usage.''\<rparr>]"
    using one_sql_field_hit_per_block [of "''SELECT vbtyp_ext, VBTYP_EXT, Vbtyp_Ext FROM t''"] t3
    by (simp add: b2)
  from t1 t2 e1 t3 e2 show ?thesis by (intro conjI)
qed

text \<open>
  \<^bold>\<open>C5\<close> (declaration renamed and declaration removed). Whatever stands before and after it in
  the unit's source text, \<^verbatim>\<open>DATA x TYPE VBTYP.\<close> yields a DECLARATION finding for VBTYP, at the
  offsets of \<^verbatim>\<open>TYPE VBTYP\<close>, with the suggestion \<open>[VBTYPL]\<close> and a comment that names VBTYPL;
  and \<^verbatim>\<open>DATA y TYPE VBTYP_EXT.\<close> yields a DECLARATION finding for VBTYP_EXT with no suggestion
  and the comment that ends in \<^verbatim>\<open>Remove usage.\<close>
\<close>

theorem declaration_renamed_and_removed:
  "(\<exists>fs. unit_findings (pre @ ''DATA x TYPE VBTYP.'' @ post) = Inr fs \<and>
      \<lparr>table = None, field = Some ''VBTYP'', target_type = DECLARATION, target_name = ''VBTYP'',
       start_char_in_unit = length pre + 7, end_char_in_unit = length pre + 17,
       used_fields = [''VBTYP''], ambiguous = False, suggested_fields = Some [''VBTYPL''],
       suggested_statement =
         ''* TODO: Data element VBTYP was lengthened (Note 2198647). Use VBTYPL.''\<rparr> \<in> set fs) \<and>
   (\<exists>fs. unit_findings (pre @ ''DATA y TYPE VBTYP_EXT.'' @ post) = Inr fs \<and>
      \<lparr>table = None, field = Some ''VBTYP_EXT'', target_type = DECLARATION,
       target_name = ''VBTYP_EXT'',
       start_char_in_unit = length pre + 7, end_char_in_unit = length pre + 21,
       used_fields = [''VBTYP_EXT''], ambiguous = False, suggested_fields = None,
       suggested_statement =
         ''* TODO: Field VBTYP_EXT obsolete (Note 2198647). Remove usage.''\<rparr> \<in> set fs)"
proof
  have x: "\<not> is_space CHR ''x''" "ascii_upper CHR ''x'' \<noteq> CHR ''E''"
    by code_simp+
  have f: "''VBTYP'' \<noteq> []" "\<forall>c \<in> set ''VBTYP''. is_ident c" by (simp_all add: is_ident_def)
  have c: "DECL_FIELDS (py_upper ''VBTYP'') \<noteq> None \<or> py_upper ''VBTYP'' \<in> DECL_FIELDS_OBS"
    by (simp add: py_upper_names DECL_FIELDS_def)
  have s: "pre @ ''DATA x TYPE VBTYP.'' @ post =
      pre @ ''DATA '' @ [CHR ''x''] @ '' TYPE '' @ ''VBTYP'' @ ''.'' @ post" by simp
  have h: "to_finding (decl_hit (py_upper ''VBTYP'') (length pre + 7, length pre + 12 + length ''VBTYP'')) =
      \<lparr>table = None, field = Some ''VBTYP'', target_type = DECLARATION, target_name = ''VBTYP'',
       start_char_in_unit = length pre + 7, end_char_in_unit = length pre + 17,
       used_fields = [''VBTYP''], ambiguous = False, suggested_fields = Some [''VBTYPL''],
       suggested_statement =
         ''* TODO: Data element VBTYP was lengthened (Note 2198647). Use VBTYPL.''\<rparr>"
    by (simp add: to_finding_def decl_hit_def comment_decl_field_def py_upper_names
                  DECL_FIELDS_def DECL_FIELDS_OBS_def)
  from declaration_finding [OF s x f c] show
    "\<exists>fs. unit_findings (pre @ ''DATA x TYPE VBTYP.'' @ post) = Inr fs \<and>
      \<lparr>table = None, field = Some ''VBTYP'', target_type = DECLARATION, target_name = ''VBTYP'',
       start_char_in_unit = length pre + 7, end_char_in_unit = length pre + 17,
       used_fields = [''VBTYP''], ambiguous = False, suggested_fields = Some [''VBTYPL''],
       suggested_statement =
         ''* TODO: Data element VBTYP was lengthened (Note 2198647). Use VBTYPL.''\<rparr> \<in> set fs"
    by (simp only: h)
next
  have y: "\<not> is_space CHR ''y''" "ascii_upper CHR ''y'' \<noteq> CHR ''E''"
    by code_simp+
  have f: "''VBTYP_EXT'' \<noteq> []" "\<forall>c \<in> set ''VBTYP_EXT''. is_ident c"
    by (simp_all add: is_ident_def)
  have c: "DECL_FIELDS (py_upper ''VBTYP_EXT'') \<noteq> None \<or> py_upper ''VBTYP_EXT'' \<in> DECL_FIELDS_OBS"
    by (simp add: py_upper_names DECL_FIELDS_OBS_def)
  have s: "pre @ ''DATA y TYPE VBTYP_EXT.'' @ post =
      pre @ ''DATA '' @ [CHR ''y''] @ '' TYPE '' @ ''VBTYP_EXT'' @ ''.'' @ post" by simp
  have h: "to_finding (decl_hit (py_upper ''VBTYP_EXT'')
        (length pre + 7, length pre + 12 + length ''VBTYP_EXT'')) =
      \<lparr>table = None, field = Some ''VBTYP_EXT'', target_type = DECLARATION,
       target_name = ''VBTYP_EXT'',
       start_char_in_unit = length pre + 7, end_char_in_unit = length pre + 21,
       used_fields = [''VBTYP_EXT''], ambiguous = False, suggested_fields = None,
       suggested_statement =
         ''* TODO: Field VBTYP_EXT obsolete (Note 2198647). Remove usage.''\<rparr>"
    by (simp add: to_finding_def decl_hit_def comment_decl_field_def py_upper_names
                  DECL_FIELDS_def DECL_FIELDS_OBS_def)
  from declaration_finding [OF s y f c] show
    "\<exists>fs. unit_findings (pre @ ''DATA y TYPE VBTYP_EXT.'' @ post) = Inr fs \<and>
      \<lparr>table = None, field = Some ''VBTYP_EXT'', target_type = DECLARATION,
       target_name = ''VBTYP_EXT'',
       start_char_in_unit = length pre + 7, end_char_in_unit = length pre + 21,
       used_fields = [''VBTYP_EXT''], ambiguous = False, suggested_fields = None,
       suggested_statement =
         ''* TODO: Field VBTYP_EXT obsolete (Note 2198647). Remove usage.''\<rparr> \<in> set fs"
    by (simp only: h)
qed

theorem declaration_renamed_and_removed_witness:
  "(\<exists>fs. unit_findings ''DATA x TYPE VBTYP.'' = Inr fs \<and>
      \<lparr>table = None, field = Some ''VBTYP'', target_type = DECLARATION, target_name = ''VBTYP'',
       start_char_in_unit = 7, end_char_in_unit = 17,
       used_fields = [''VBTYP''], ambiguous = False, suggested_fields = Some [''VBTYPL''],
       suggested_statement =
         ''* TODO: Data element VBTYP was lengthened (Note 2198647). Use VBTYPL.''\<rparr> \<in> set fs) \<and>
   (\<exists>fs. unit_findings ''DATA y TYPE VBTYP_EXT.'' = Inr fs \<and>
      \<lparr>table = None, field = Some ''VBTYP_EXT'', target_type = DECLARATION,
       target_name = ''VBTYP_EXT'',
       start_char_in_unit = 7, end_char_in_unit = 21,
       used_fields = [''VBTYP_EXT''], ambiguous = False, suggested_fields = None,
       suggested_statement =
         ''* TODO: Field VBTYP_EXT obsolete (Note 2198647). Remove usage.''\<rparr> \<in> set fs)"
  using declaration_renamed_and_removed [of "[]" "[]"] by simp



text \<open>
  \<^bold>\<open>C7\<close> (positional output). For every list of units the call returns, and returns one
  object per unit, in the order of the input: the object at index \<open>i\<close> has the fields of
  the unit at index \<open>i\<close> and, under \<^verbatim>\<open>selects\<close>, the findings of that unit's source text.
\<close>

theorem assess_positional:
  "\<exists>results. assess units = Inr results \<and> length results = length units \<and>
     (\<forall>i<length units.
        pgm_name (results ! i) = pgm_name (units ! i) \<and>
        inc_name (results ! i) = inc_name (units ! i) \<and>
        type (results ! i) = type (units ! i) \<and>
        name (results ! i) = name (units ! i) \<and>
        code (results ! i) = code (units ! i) \<and>
        unit_findings (unit_src (units ! i)) = Inr (selects (results ! i)))"
  by (simp add: assess_eq unit_findings_eq result_of_def)

theorem assess_positional_witness:
  "\<exists>results.
     assess [\<lparr>pgm_name = ''P1'', inc_name = ''I1'', type = ''FORM'', name = None,
              code = Some ''SELECT * FROM VBUK''\<rparr>,
             \<lparr>pgm_name = ''P2'', inc_name = ''I2'', type = ''METHOD'', name = Some ''m'',
              code = None\<rparr>] = Inr results \<and>
     length results = 2 \<and> pgm_name (results ! 1) = ''P2'' \<and> code (results ! 1) = None \<and>
     unit_findings [] = Inr (selects (results ! 1))"
  using assess_positional [of "[\<lparr>pgm_name = ''P1'', inc_name = ''I1'', type = ''FORM'', name = None,
              code = Some ''SELECT * FROM VBUK''\<rparr>,
             \<lparr>pgm_name = ''P2'', inc_name = ''I2'', type = ''METHOD'', name = Some ''m'',
              code = None\<rparr>]"]
  by (auto simp: unit_src_def)

text \<open>
  \<^bold>\<open>C8\<close> (the catalog lookup cannot fail). \<^verbatim>\<open>comment_table\<close> raises KeyError exactly on a
  name that is no key of the table catalog, and so does the dictionary built around it; in
  the model every such error is the result of \<^verbatim>\<open>scan_sql\<close> and of \<^verbatim>\<open>assess\<close>. For every text
  \<^verbatim>\<open>scan_sql\<close> returns a list of hits and for every list of units \<^verbatim>\<open>assess\<close> returns a list of
  results, so the lookup never fails: the scanner reaches \<^verbatim>\<open>comment_table\<close> only behind its tests
  \<^verbatim>\<open>table in SQL_TABLES\<close> and \<^verbatim>\<open>jtable in SQL_TABLES\<close>.
\<close>

theorem comment_table_lookup_unreachable:
  "(\<exists>results. assess units = Inr results) \<and>
   (\<exists>hits. scan_sql src = Inr hits) \<and>
   (comment_table tbl = Inl (KeyError tbl) \<longleftrightarrow> tbl \<notin> dom SQL_TABLES) \<and>
   (table_hit tbl sp = Inl (KeyError tbl) \<longleftrightarrow> tbl \<notin> dom SQL_TABLES)"
  by (auto simp: assess_eq scan_sql_eq comment_table_def table_hit_def split: option.splits)

text \<open>
  \<^bold>\<open>C9\<close> (determinism). Two scans of the same source text give the same list of findings,
  whatever the two calls scanned before: for any two calls of \<^verbatim>\<open>assess\<close>, the unit at
  index \<open>i\<close> of the first and the unit at index \<open>j\<close> of the second get equal lists when
  their source texts are equal. The set \<^verbatim>\<open>seen\<close> and the list \<^verbatim>\<open>findings\<close> start empty
  for every unit, and nothing else is carried from one unit to the next.
\<close>

theorem scan_deterministic:
  "\<exists>rs qs. assess us = Inr rs \<and> assess vs = Inr qs \<and>
     (\<forall>i<length us. \<forall>j<length vs.
        unit_src (us ! i) = unit_src (vs ! j) \<longrightarrow> selects (rs ! i) = selects (qs ! j))"
  by (simp add: assess_eq result_of_def)

theorem scan_deterministic_witness:
  "\<exists>rs qs.
     assess [\<lparr>pgm_name = ''P1'', inc_name = ''I1'', type = ''FORM'', name = None,
              code = Some ''DATA x TYPE VBTYP.''\<rparr>,
             \<lparr>pgm_name = ''P1'', inc_name = ''I1'', type = ''FORM'', name = None,
              code = Some ''SELECT * FROM VBUK''\<rparr>] = Inr rs \<and>
     assess [\<lparr>pgm_name = ''P1'', inc_name = ''I1'', type = ''FORM'', name = None,
              code = Some ''SELECT * FROM VBUK''\<rparr>] = Inr qs \<and>
     selects (rs ! 1) = selects (qs ! 0)"
  using scan_deterministic [of
           "[\<lparr>pgm_name = ''P1'', inc_name = ''I1'', type = ''FORM'', name = None,
              code = Some ''DATA x TYPE VBTYP.''\<rparr>,
             \<lparr>pgm_name = ''P1'', inc_name = ''I1'', type = ''FORM'', name = None,
              code = Some ''SELECT * FROM VBUK''\<rparr>]"
           "[\<lparr>pgm_name = ''P1'', inc_name = ''I1'', type = ''FORM'', name = None,
              code = Some ''SELECT * FROM VBUK''\<rparr>]"]
  by (auto simp: unit_src_def)

text \<open>
  \<^bold>\<open>C10\<close> (shape of a finding). Every finding of every source text satisfies: when its kind
  is SQL_FIELD or DECLARATION its field is its target name; when its kind is TABLE its field
  is absent, its table is its target name and its suggestion has exactly one element; its
  flag \<^verbatim>\<open>ambiguous\<close> is false; and its target name is in upper case (\<^verbatim>\<open>upper\<close> leaves it as
  it is), also when the source text is in lower case.
\<close>

theorem finding_invariants:
  "\<exists>fs. unit_findings src = Inr fs \<and>
     (\<forall>f \<in> set fs.
        (target_type f = SQL_FIELD \<or> target_type f = DECLARATION \<longrightarrow>
           field f = Some (target_name f)) \<and>
        (target_type f = TABLE \<longrightarrow>
           field f = None \<and> table f = Some (target_name f) \<and>
           (\<exists>r. suggested_fields f = Some [r])) \<and>
        \<not> ambiguous f \<and>
        py_upper (target_name f) = target_name f)"
proof -
  from unit_findings_set [of src] obtain fs where
    fs: "unit_findings src = Inr fs"
        "set fs = to_finding ` (set (sql_hits src) \<union> set (scan_declarations src))"
    by blast
  have "\<forall>h \<in> set (sql_hits src) \<union> set (scan_declarations src). wf_hit h"
    using sql_hits_wf scan_declarations_wf by blast
  with fs(2) have wf: "\<forall>f \<in> set fs. \<exists>h. wf_hit h \<and> f = to_finding h" by blast
  show ?thesis
  proof (intro exI conjI)
    show "unit_findings src = Inr fs" by (rule fs(1))
    show "\<forall>f \<in> set fs.
        (target_type f = SQL_FIELD \<or> target_type f = DECLARATION \<longrightarrow>
           field f = Some (target_name f)) \<and>
        (target_type f = TABLE \<longrightarrow>
           field f = None \<and> table f = Some (target_name f) \<and>
           (\<exists>r. suggested_fields f = Some [r])) \<and>
        \<not> ambiguous f \<and>
        py_upper (target_name f) = target_name f"
    proof
      fix f
      assume "f \<in> set fs"
      with wf obtain h where h: "wf_hit h" "f = to_finding h" by blast
      from wf_hit_finding [OF h(1)] show
       "(target_type f = SQL_FIELD \<or> target_type f = DECLARATION \<longrightarrow>
           field f = Some (target_name f)) \<and>
        (target_type f = TABLE \<longrightarrow>
           field f = None \<and> table f = Some (target_name f) \<and>
           (\<exists>r. suggested_fields f = Some [r])) \<and>
        \<not> ambiguous f \<and>
        py_upper (target_name f) = target_name f"
        unfolding h(2) .
    qed
  qed
qed

theorem finding_invariants_witness:
  "\<exists>fs. unit_findings ''select vbtyp_ext from vbuk. data x like vbtyp.'' = Inr fs \<and>
     map (\<lambda>f. (target_type f, target_name f, field f, table f)) fs =
        [(TABLE, ''VBUK'', None, Some ''VBUK''),
         (SQL_FIELD, ''VBTYP_EXT'', Some ''VBTYP_EXT'', None),
         (DECLARATION, ''VBTYP'', Some ''VBTYP'', None)] \<and>
     map (\<lambda>f. py_upper (target_name f)) fs = map target_name fs \<and>
     map ambiguous fs = [False, False, False]"
proof -
  from finding_invariants [of "''select vbtyp_ext from vbuk. data x like vbtyp.''"]
  obtain fs where fs: "unit_findings ''select vbtyp_ext from vbuk. data x like vbtyp.'' = Inr fs"
    and inv: "\<forall>f \<in> set fs. \<not> ambiguous f \<and> py_upper (target_name f) = target_name f"
    by blast
  from lower_case_findings fs have m: "map (\<lambda>f. (target_type f, target_name f, field f, table f)) fs =
        [(TABLE, ''VBUK'', None, Some ''VBUK''),
         (SQL_FIELD, ''VBTYP_EXT'', Some ''VBTYP_EXT'', None),
         (DECLARATION, ''VBTYP'', Some ''VBTYP'', None)]" by simp
  then have "length fs = 3" using length_map [of "\<lambda>f. (target_type f, target_name f, field f, table f)" fs]
    by simp
  then obtain a b c where abc: "fs = [a, b, c]"
    by (metis (no_types) length_0_conv length_Suc_conv numeral_3_eq_3)
  with inv have "map (\<lambda>f. py_upper (target_name f)) fs = map target_name fs \<and>
     map ambiguous fs = [False, False, False]" by simp
  with fs m show ?thesis by (intro exI [of _ fs]) simp
qed

end
